theory Spec2Isabelle
  imports Main
begin

section \<open>The corpus collector\<close>

text \<open>
  The program \<^verbatim>\<open>wikipedia_Dump.py\<close> collects a text corpus from randomly sampled
  pages. At start-up it loads the titles it has seen in earlier runs. It then starts
  worker threads and a monitor thread, which share a set of seen titles and two counters
  under one lock. Each worker samples batches of titles, claims the titles that are new,
  fetches and cleans their pages, and appends the texts that are long enough to the
  corpus file, until one of the two stop conditions holds.

  The model below follows the program block by block: the cleaning function, the
  start-up block, the sampling loop with its retries, the steps of a worker and of the
  monitor, and the process as the interleaving of these steps.
\<close>

section \<open>Text\<close>

text \<open>
  A Python \<^verbatim>\<open>str\<close> is a sequence of Unicode code points, so text is a list of
  code-point numbers. \<^verbatim>\<open>\s\<close> in a \<^verbatim>\<open>str\<close> pattern, \<^verbatim>\<open>str.strip()\<close> and
  \<^verbatim>\<open>str.split()\<close> all use the same whitespace test of the interpreter; its
  table is written out in \<open>is_space\<close>.
\<close>

type_synonym ustring = "nat list"

definition is_space :: "nat \<Rightarrow> bool" where
  "is_space c =
     ((9 \<le> c \<and> c \<le> 13) \<or> (28 \<le> c \<and> c \<le> 32) \<or> c = 133 \<or> c = 160 \<or> c = 5760 \<or>
      (8192 \<le> c \<and> c \<le> 8202) \<or> c = 8232 \<or> c = 8233 \<or> c = 8239 \<or> c = 8287 \<or>
      c = 12288)"

text \<open>
  The characters that the negated class of the first pattern of \<open>clean_text\<close> does
  not match: the Devanagari block U+0900 to U+097F (the danda U+0964 and the digits
  U+0966 to U+096F that the class also lists lie inside it), whitespace, and the comma,
  the exclamation mark and the question mark.
\<close>

definition allowed :: "nat \<Rightarrow> bool" where
  "allowed c = ((2304 \<le> c \<and> c \<le> 2431) \<or> is_space c \<or> c = 44 \<or> c = 33 \<or> c = 63)"

text \<open>
  \<^verbatim>\<open>re.sub(r'[C]+', ' ', text)\<close>: every maximal run of characters of the class is
  replaced by one space (U+0020).
\<close>

function sub_runs :: "(nat \<Rightarrow> bool) \<Rightarrow> ustring \<Rightarrow> ustring" where
  "sub_runs P [] = []"
| "sub_runs P (c # cs) =
     (if P c then 32 # sub_runs P (dropWhile P cs) else c # sub_runs P cs)"
  by pat_completeness auto
termination
  by (relation "measure (\<lambda>(P, s). length s)") (auto simp: length_dropWhile_le le_imp_less_Suc)

text \<open>\<^verbatim>\<open>str.strip()\<close>: leading and trailing whitespace removed.\<close>

definition strip :: "ustring \<Rightarrow> ustring" where
  "strip s = rev (dropWhile is_space (rev (dropWhile is_space s)))"

text \<open>\<^verbatim>\<open>str.split()\<close>: the maximal runs of characters that are not whitespace.\<close>

function split_ws :: "ustring \<Rightarrow> ustring list" where
  "split_ws [] = []"
| "split_ws (c # cs) =
     (if is_space c then split_ws cs
      else (c # takeWhile (\<lambda>d. \<not> is_space d) cs) #
           split_ws (dropWhile (\<lambda>d. \<not> is_space d) cs))"
  by pat_completeness auto
termination
  by (relation "measure length") (auto simp: length_dropWhile_le le_imp_less_Suc)

text \<open>\<^verbatim>\<open>patt in t\<close> on strings: \<open>patt\<close> occurs in \<open>t\<close> as a contiguous run.\<close>

fun prefix_of :: "ustring \<Rightarrow> ustring \<Rightarrow> bool" where
  "prefix_of [] t = True"
| "prefix_of (p # ps) [] = False"
| "prefix_of (p # ps) (c # cs) = (p = c \<and> prefix_of ps cs)"

fun occurs_in :: "ustring \<Rightarrow> ustring \<Rightarrow> bool" where
  "occurs_in p [] = (p = [])"
| "occurs_in p (c # cs) = (prefix_of p (c # cs) \<or> occurs_in p cs)"

subsection \<open>The cleaning function\<close>

definition clean_text :: "ustring \<Rightarrow> ustring" where
  "clean_text text =
     (let text1 = sub_runs (\<lambda>c. \<not> allowed c) text;
          text2 = sub_runs is_space text1
      in strip text2)"

definition word_count :: "ustring \<Rightarrow> nat" where
  "word_count content = length (split_ws content)"

section \<open>Configuration\<close>

text \<open>
  The module constants of the configuration block. The program fixes them in
  \<open>default_config\<close>; the model takes them as a parameter, so that every statement
  below holds for the program's values and for any other setting of them.
\<close>

record config =
  NUM_ARTICLES :: nat
  NUM_WORKER_THREADS :: nat
  FILE_SIZE_PRINT_INTERVAL :: nat
  BATCH_SIZE :: nat
  MAX_RETRIES :: nat
  RETRY_DELAY :: nat
  CONSECUTIVE_EMPTY_THRESHOLD :: nat

definition default_config :: config where
  "default_config =
     \<lparr>NUM_ARTICLES = 800000000000, NUM_WORKER_THREADS = 8, FILE_SIZE_PRINT_INTERVAL = 60,
      BATCH_SIZE = 20, MAX_RETRIES = 4, RETRY_DELAY = 10, CONSECUTIVE_EMPTY_THRESHOLD = 100\<rparr>"

section \<open>Loading the seen titles\<close>

type_synonym title = ustring

text \<open>
  The seven patterns of \<open>invalid_patterns\<close>: the two parentheses, the Marathi words
  for Wikipedia, help, template and talk, and the word disambiguation.
\<close>

definition invalid_patterns :: "ustring list" where
  "invalid_patterns =
     [[40], [41],
      [2357, 2367, 2325, 2367, 2346, 2368, 2337, 2367, 2351, 2366],
      [100, 105, 115, 97, 109, 98, 105, 103, 117, 97, 116, 105, 111, 110],
      [2350, 2342, 2340],
      [2360, 2366, 2330, 2366],
      [2330, 2352, 2381, 2330, 2366]]"

text \<open>
  The seen file is a text file: its content is a string, and \<^verbatim>\<open>for line in f\<close>
  yields its lines. A line ends at a line feed, at a carriage return, or at a carriage
  return followed by a line feed, and is handed over with a line feed at its end; the
  last line of the file may lack its end. \<open>read_from cur s\<close> reads the rest \<open>s\<close>
  of the content when \<open>cur\<close> is the part of the current line already read.
\<close>

fun read_from :: "ustring \<Rightarrow> ustring \<Rightarrow> ustring list" where
  "read_from cur [] = (if cur = [] then [] else [cur])"
| "read_from cur [c] = (if c = 10 \<or> c = 13 then [cur @ [10]] else [cur @ [c]])"
| "read_from cur (c # d # cs) =
     (if c = 13 \<and> d = 10 then (cur @ [10]) # read_from [] cs
      else if c = 10 \<or> c = 13 then (cur @ [10]) # read_from [] (d # cs)
      else read_from (cur @ [c]) (d # cs))"

definition read_lines :: "ustring \<Rightarrow> ustring list" where
  "read_lines content = read_from [] content"

text \<open>
  The loop over the lines of the file: each line is stripped and, unless it is empty,
  added to the set.
\<close>

fun read_titles :: "ustring list \<Rightarrow> title set \<Rightarrow> title set" where
  "read_titles [] seen = seen"
| "read_titles (line # rest) seen =
     (let t = strip line in read_titles rest (if t \<noteq> [] then insert t seen else seen))"

text \<open>\<^verbatim>\<open>not any(patt in t for patt in invalid_patterns)\<close>\<close>

definition keeps :: "title \<Rightarrow> bool" where
  "keeps t = (\<not> list_ex (\<lambda>patt. occurs_in patt t) invalid_patterns)"

text \<open>
  The start-up block: the file is given as the list of lines that the loop reads, or
  \<open>None\<close> when it does not exist. The result is the pair of \<open>seen_titles\<close> and
  \<open>total_articles_written\<close>.
\<close>

definition load_seen_titles :: "ustring list option \<Rightarrow> title set \<times> nat" where
  "load_seen_titles f =
     (case f of
        None \<Rightarrow> ({}, 0)
      | Some lines \<Rightarrow>
          (let seen = read_titles lines {};
               filtered_titles = Set.filter keeps seen
           in (filtered_titles, card filtered_titles)))"

section \<open>Effects\<close>

text \<open>
  What a thread prints, the calls it makes to the source and the time it sleeps are
  recorded as events, in the order in which they happen.
\<close>

datatype stop_reason = TargetReached | NoNewArticles

datatype event =
    ApiRandom
  | LogApiError nat
  | RetrySleep nat
  | LogCriticalError
  | LogFailedAfterRetries
  | CooldownSleep nat
  | LogNoNewTitles nat
  | LogSavedTitles nat
  | LogSeenFileError
  | LogSkippedShort title nat
  | LogWritten title nat
  | LogSkippedSpecial title
  | LogWikipediaError title
  | LogUnexpectedError title
  | LogNoValidArticles nat
  | LogStopping stop_reason
  | MonitorReport nat int
  | LogMonitorError
  | MonitorSleep nat

datatype actor = Worker nat | Monitor

section \<open>Sampling a batch, with retries\<close>

text \<open>
  One call of \<^verbatim>\<open>wikipedia.random\<close> returns titles or raises; of an exception only
  its message is inspected.
\<close>

datatype sample_outcome = Titles "title list" | Raised ustring

definition is_transient :: "ustring \<Rightarrow> bool" where
  "is_transient error_msg =
     (occurs_in [72, 84, 84, 80] error_msg \<or>
      occurs_in [116, 105, 109, 101, 100, 32, 111, 117, 116] error_msg)"

text \<open>
  How the \<^verbatim>\<open>for attempt in range(1, MAX_RETRIES + 1)\<close> loop ends: by the
  \<^verbatim>\<open>break\<close> after a successful call, by the \<^verbatim>\<open>break\<close> of the critical-error
  branch (\<open>titles_batch\<close> is still empty), or by running out of attempts, which runs the
  \<^verbatim>\<open>else\<close> clause of the loop.
\<close>

datatype sample_result = Sampled "title list" | Aborted | Exhausted

text \<open>\<open>api k\<close> is what the \<open>k\<close>-th call of this invocation does.\<close>

function retry_loop :: "config \<Rightarrow> (nat \<Rightarrow> sample_outcome) \<Rightarrow> nat \<Rightarrow> sample_result \<times> event list" where
  "retry_loop cfg api attempt =
     (if MAX_RETRIES cfg < attempt then (Exhausted, [LogFailedAfterRetries, CooldownSleep 30])
      else
        (case api attempt of
           Titles b \<Rightarrow> (Sampled b, [ApiRandom])
         | Raised error_msg \<Rightarrow>
             if is_transient error_msg then
               (case retry_loop cfg api (attempt + 1) of
                  (r, evs) \<Rightarrow>
                    (r, [ApiRandom, LogApiError attempt, RetrySleep (RETRY_DELAY cfg * attempt)] @ evs))
             else (Aborted, [ApiRandom, LogCriticalError])))"
  by pat_completeness auto
termination
  by (relation "measure (\<lambda>(cfg, api, attempt). MAX_RETRIES cfg + 1 - attempt)") auto

declare retry_loop.simps [simp del]

section \<open>The worker\<close>

text \<open>
  The state the threads share, guarded by the one lock, and the two files. The seen
  file is its content, a string. The corpus is the list of the lines appended by the
  workers of this process, each with the title of the page it was made from (the title
  is not written to the file; it is the one the worker prints beside the write).
\<close>

record globals =
  seen_titles :: "title set"
  total_articles_written :: nat
  consecutive_empty_batches :: nat
  seen_file :: ustring
  corpus :: "(title \<times> ustring) list"
  events :: "(actor \<times> event) list"

definition emit :: "actor \<Rightarrow> event list \<Rightarrow> globals \<Rightarrow> globals" where
  "emit a evs g = g\<lparr>events := events g @ map (Pair a) evs\<rparr>"

text \<open>
  What the world answers during one step of a worker: the source to the sampling calls,
  the file system to the append to the seen file (it succeeds, or fails after some
  characters of the text have reached the file), the source to the fetch of a page, and
  the file system to the append to the corpus.
\<close>

datatype io_outcome = IoOk | IoFails nat

datatype fetch_outcome =
    PageContent ustring
  | RedirectError
  | DisambiguationError
  | PageError
  | WikipediaException
  | OtherException

record env =
  random_calls :: "nat \<Rightarrow> sample_outcome"
  seen_append :: io_outcome
  page_fetch :: fetch_outcome
  corpus_append_ok :: bool

text \<open>
  Where a worker is in its loop, with its local variables:
  \<^item> \<open>CheckStop\<close>: before the stop check at the head of \<^verbatim>\<open>while True\<close>;
  \<^item> \<open>SampleBatch\<close>: before the sampling loop;
  \<^item> \<open>Dedup\<close>: holding \<open>titles_batch\<close>, before the locked block that claims the
    new titles and appends them to the seen file;
  \<^item> \<open>FetchLoop\<close>: at the head of the loop over \<open>new_titles\<close>, with the titles
    still to come and \<open>articles_written_in_batch\<close>;
  \<^item> \<open>Fetching\<close>: past the target check of that loop, about to fetch one title;
  \<^item> \<open>Counting\<close>: after the write of the line of that title (with its word count),
    about to increment \<open>total_articles_written\<close>;
  \<^item> \<open>EndBatch\<close>: after the loop, before the check of
    \<open>articles_written_in_batch\<close>;
  \<^item> \<open>Stopped\<close>: returned.
\<close>

datatype wloc =
    CheckStop
  | SampleBatch
  | Dedup "title list"
  | FetchLoop "title list" nat
  | Fetching title "title list" nat
  | Counting title nat "title list" nat
  | EndBatch nat
  | Stopped stop_reason

text \<open>The loop over \<open>titles_batch\<close> that fills \<open>new_titles\<close>.\<close>

fun dedup_loop :: "title list \<Rightarrow> title set \<Rightarrow> title list \<Rightarrow> title set \<times> title list" where
  "dedup_loop [] seen new_titles = (seen, new_titles)"
| "dedup_loop (t # ts) seen new_titles =
     (if t \<notin> seen then dedup_loop ts (insert t seen) (new_titles @ [t])
      else dedup_loop ts seen new_titles)"

text \<open>
  The append of the new titles to the seen file, inside \<^verbatim>\<open>try\<close>: for each title
  the string \<^verbatim>\<open>title + "\n"\<close> is written after the last character of the file,
  whether or not that character ends a line. When the append fails, the first characters
  of the text may have reached the file.
\<close>

definition titles_text :: "title list \<Rightarrow> ustring" where
  "titles_text new_titles = concat (map (\<lambda>title. title @ [10]) new_titles)"

definition persist :: "io_outcome \<Rightarrow> title list \<Rightarrow> ustring \<Rightarrow> ustring \<times> event" where
  "persist io new_titles f =
     (case io of
        IoOk \<Rightarrow> (f @ titles_text new_titles, LogSavedTitles (length new_titles))
      | IoFails k \<Rightarrow> (f @ take k (titles_text new_titles), LogSeenFileError))"

text \<open>
  One step of worker \<open>tid\<close>: a block that runs under the lock, or a stretch of code
  between two such blocks that touches no shared variable. The stop check, the block
  that claims and saves the new titles, the target check of the inner loop, the
  increment of \<open>total_articles_written\<close> and the increment after a batch without
  articles are the blocks under the lock. The sampling loop with all its retries, and
  the fetch of a page with the append of its text to the corpus, run outside the lock.
  An exception raised by the fetch or by the append is caught by the handlers of the
  inner loop, which print and go on with the next title; a failed append is taken to
  leave the corpus as it was.
\<close>

fun worker_step :: "config \<Rightarrow> nat \<Rightarrow> env \<Rightarrow> globals \<Rightarrow> wloc \<Rightarrow> globals \<times> wloc" where
  "worker_step cfg tid e g CheckStop =
     (if NUM_ARTICLES cfg \<le> total_articles_written g
      then (emit (Worker tid) [LogStopping TargetReached] g, Stopped TargetReached)
      else if CONSECUTIVE_EMPTY_THRESHOLD cfg \<le> consecutive_empty_batches g
      then (emit (Worker tid) [LogStopping NoNewArticles] g, Stopped NoNewArticles)
      else (g, SampleBatch))"
| "worker_step cfg tid e g SampleBatch =
     (case retry_loop cfg (random_calls e) 1 of
        (Sampled b, evs) \<Rightarrow> (emit (Worker tid) evs g, Dedup b)
      | (Aborted, evs) \<Rightarrow> (emit (Worker tid) evs g, Dedup [])
      | (Exhausted, evs) \<Rightarrow> (emit (Worker tid) evs g, CheckStop))"
| "worker_step cfg tid e g (Dedup titles_batch) =
     (case dedup_loop titles_batch (seen_titles g) [] of
        (seen, new_titles) \<Rightarrow>
          if new_titles = [] then
            (emit (Worker tid) [LogNoNewTitles (consecutive_empty_batches g + 1)]
               (g\<lparr>seen_titles := seen,
                  consecutive_empty_batches := consecutive_empty_batches g + 1\<rparr>),
             CheckStop)
          else
            (case persist (seen_append e) new_titles (seen_file g) of
               (f, ev) \<Rightarrow>
                 (emit (Worker tid) [ev]
                    (g\<lparr>seen_titles := seen, consecutive_empty_batches := 0, seen_file := f\<rparr>),
                  FetchLoop new_titles 0)))"
| "worker_step cfg tid e g (FetchLoop [] n) = (g, EndBatch n)"
| "worker_step cfg tid e g (FetchLoop (t # ts) n) =
     (if NUM_ARTICLES cfg \<le> total_articles_written g then (g, EndBatch n)
      else (g, Fetching t ts n))"
| "worker_step cfg tid e g (Fetching t ts n) =
     (case page_fetch e of
        PageContent raw \<Rightarrow>
          (let content = clean_text raw; wc = word_count content in
           if wc \<le> 50 then (emit (Worker tid) [LogSkippedShort t wc] g, FetchLoop ts n)
           else if corpus_append_ok e then (g\<lparr>corpus := corpus g @ [(t, content)]\<rparr>, Counting t wc ts n)
           else (emit (Worker tid) [LogUnexpectedError t] g, FetchLoop ts n))
      | RedirectError \<Rightarrow> (emit (Worker tid) [LogSkippedSpecial t] g, FetchLoop ts n)
      | DisambiguationError \<Rightarrow> (emit (Worker tid) [LogSkippedSpecial t] g, FetchLoop ts n)
      | PageError \<Rightarrow> (emit (Worker tid) [LogSkippedSpecial t] g, FetchLoop ts n)
      | WikipediaException \<Rightarrow> (emit (Worker tid) [LogWikipediaError t] g, FetchLoop ts n)
      | OtherException \<Rightarrow> (emit (Worker tid) [LogUnexpectedError t] g, FetchLoop ts n))"
| "worker_step cfg tid e g (Counting t wc ts n) =
     (emit (Worker tid) [LogWritten t wc]
        (g\<lparr>total_articles_written := total_articles_written g + 1\<rparr>),
      FetchLoop ts (n + 1))"
| "worker_step cfg tid e g (EndBatch n) =
     (if n = 0 then
        (emit (Worker tid) [LogNoValidArticles (consecutive_empty_batches g + 1)]
           (g\<lparr>consecutive_empty_batches := consecutive_empty_batches g + 1\<rparr>),
         CheckStop)
      else (g, CheckStop))"
| "worker_step cfg tid e g (Stopped r) = (g, Stopped r)"

section \<open>The monitor\<close>

text \<open>
  The monitor is running, with its \<open>last_count\<close>, or has returned. The sizes it
  prints are floating-point numbers and are left out of the report; \<open>size_ok\<close> says
  whether reading the size of the corpus file succeeded.
\<close>

datatype mloc = MonRunning nat | MonStopped stop_reason

fun monitor_step :: "config \<Rightarrow> bool \<Rightarrow> globals \<Rightarrow> mloc \<Rightarrow> globals \<times> mloc" where
  "monitor_step cfg size_ok g (MonRunning last_count) =
     (if NUM_ARTICLES cfg \<le> total_articles_written g
      then (emit Monitor [LogStopping TargetReached] g, MonStopped TargetReached)
      else if CONSECUTIVE_EMPTY_THRESHOLD cfg \<le> consecutive_empty_batches g
      then (emit Monitor [LogStopping NoNewArticles] g, MonStopped NoNewArticles)
      else
        (let current_count = total_articles_written g in
         if size_ok then
           (emit Monitor
              [MonitorReport current_count (int current_count - int last_count),
               MonitorSleep (FILE_SIZE_PRINT_INTERVAL cfg)] g,
            MonRunning current_count)
         else
           (emit Monitor [LogMonitorError, MonitorSleep (FILE_SIZE_PRINT_INTERVAL cfg)] g,
            MonRunning last_count)))"
| "monitor_step cfg size_ok g (MonStopped r) = (g, MonStopped r)"

section \<open>The process\<close>

text \<open>
  The process is the shared state, the workers and the monitor. A run is a sequence of
  actions: in each, one thread takes one step. Which thread moves next, and what the
  world answers, is not under the program's control, so a property of the program is a
  property of every sequence of actions.
\<close>

record process =
  globals :: globals
  workers :: "wloc list"
  monitor :: mloc

datatype action = WorkerAct nat env | MonitorAct bool

fun process_step :: "config \<Rightarrow> action \<Rightarrow> process \<Rightarrow> process" where
  "process_step cfg (WorkerAct i e) s =
     (if i < length (workers s) then
        (case worker_step cfg i e (globals s) (workers s ! i) of
           (g, w) \<Rightarrow> s\<lparr>globals := g, workers := (workers s)[i := w]\<rparr>)
      else s)"
| "process_step cfg (MonitorAct size_ok) s =
     (case monitor_step cfg size_ok (globals s) (monitor s) of
        (g, m) \<Rightarrow> s\<lparr>globals := g, monitor := m\<rparr>)"

fun run :: "config \<Rightarrow> action list \<Rightarrow> process \<Rightarrow> process" where
  "run cfg [] s = s"
| "run cfg (a # as) s = run cfg as (process_step cfg a s)"

text \<open>
  The content of the seen file at start-up, \<open>None\<close> when the file does not exist; the
  first append then creates it.
\<close>

definition file_text :: "ustring option \<Rightarrow> ustring" where
  "file_text f = (case f of None \<Rightarrow> [] | Some content \<Rightarrow> content)"

text \<open>The state in which the threads are started, for a seen file \<open>f\<close>.\<close>

definition start :: "config \<Rightarrow> ustring option \<Rightarrow> process" where
  "start cfg f =
     (case load_seen_titles (map_option read_lines f) of
        (seen, n) \<Rightarrow>
          \<lparr>globals =
             \<lparr>seen_titles = seen, total_articles_written = n, consecutive_empty_batches = 0,
              seen_file = file_text f,
              corpus = [], events = []\<rparr>,
           workers = replicate (NUM_WORKER_THREADS cfg) CheckStop,
           monitor = MonRunning 0\<rparr>)"

section \<open>Notions used in the statements\<close>

text \<open>
  Whitespace occurs only as single spaces: every whitespace character of the text is the
  space U+0020 and is not followed by another whitespace character.
\<close>

fun spaced :: "ustring \<Rightarrow> bool" where
  "spaced [] = True"
| "spaced [c] = (is_space c \<longrightarrow> c = 32)"
| "spaced (c # d # cs) = ((is_space c \<longrightarrow> c = 32 \<and> \<not> is_space d) \<and> spaced (d # cs))"

text \<open>The text neither begins nor ends with a whitespace character.\<close>

definition trimmed :: "ustring \<Rightarrow> bool" where
  "trimmed s = (s = [] \<or> (\<not> is_space (hd s) \<and> \<not> is_space (last s)))"


text \<open>
  What a failed attempt whose error is transient leaves behind: the call, the line
  printed, and the sleep of \<open>RETRY_DELAY * attempt\<close> seconds.
\<close>

definition backoff :: "config \<Rightarrow> nat \<Rightarrow> event list" where
  "backoff cfg attempt = [ApiRandom, LogApiError attempt, RetrySleep (RETRY_DELAY cfg * attempt)]"

text \<open>The \<open>j\<close>-th call raises an error that is classified as transient.\<close>

definition transient_at :: "(nat \<Rightarrow> sample_outcome) \<Rightarrow> nat \<Rightarrow> bool" where
  "transient_at api j = (case api j of Titles b \<Rightarrow> False | Raised m \<Rightarrow> is_transient m)"

text \<open>The events of the failed attempts \<open>a\<close> to \<open>k\<close>, in order.\<close>

definition fails_from :: "config \<Rightarrow> nat \<Rightarrow> nat \<Rightarrow> event list" where
  "fails_from cfg a k = concat (map (backoff cfg) [a..<Suc k])"

text \<open>The titles a worker has claimed and has not yet fetched.\<close>

fun pending :: "wloc \<Rightarrow> title list" where
  "pending (FetchLoop ts n) = ts"
| "pending (Fetching t ts n) = t # ts"
| "pending (Counting t wc ts n) = ts"
| "pending CheckStop = []"
| "pending SampleBatch = []"
| "pending (Dedup b) = []"
| "pending (EndBatch n) = []"
| "pending (Stopped r) = []"

text \<open>
  A worker is in flight when it has passed the target check for a title and has not yet
  returned to the head of the loop: it is fetching, or has written and not yet counted.
\<close>

fun in_flight :: "wloc \<Rightarrow> nat" where
  "in_flight (Fetching t ts n) = 1"
| "in_flight (Counting t wc ts n) = 1"
| "in_flight CheckStop = 0"
| "in_flight SampleBatch = 0"
| "in_flight (Dedup b) = 0"
| "in_flight (FetchLoop ts n) = 0"
| "in_flight (EndBatch n) = 0"
| "in_flight (Stopped r) = 0"

text \<open>A worker that has written a line and not yet incremented the counter.\<close>

fun uncounted :: "wloc \<Rightarrow> nat" where
  "uncounted (Counting t wc ts n) = 1"
| "uncounted CheckStop = 0"
| "uncounted SampleBatch = 0"
| "uncounted (Dedup b) = 0"
| "uncounted (FetchLoop ts n) = 0"
| "uncounted (Fetching t ts n) = 0"
| "uncounted (EndBatch n) = 0"
| "uncounted (Stopped r) = 0"



text \<open>
  What one step of a worker does to the titles: it claims the titles \<open>new\<close>, none of
  them seen before, appends the first \<open>k\<close> characters of their lines to the file,
  writes the lines \<open>wr\<close> to the corpus, and gives up the pending titles
  \<open>dropped\<close>.
\<close>

definition titles_effect ::
  "globals \<Rightarrow> wloc \<Rightarrow> globals \<Rightarrow> wloc \<Rightarrow> title list \<Rightarrow> nat \<Rightarrow> (title \<times> ustring) list \<Rightarrow> title list \<Rightarrow> bool" where
  "titles_effect g w g' w' new k wr dropped =
     (seen_titles g' = seen_titles g \<union> set new \<and> distinct new \<and>
      set new \<inter> seen_titles g = {} \<and>
      seen_file g' = seen_file g @ take k (titles_text new) \<and>
      corpus g' = corpus g @ wr \<and>
      pending w @ new = dropped @ map fst wr @ pending w')"

text \<open>
  The invariant behind the bound on the counter, for a process started with the count
  \<open>total0\<close>: the counter plus the workers in flight stays below the bound, and the
  lines written are the counted ones and those of the workers about to count.
\<close>

definition count_inv :: "config \<Rightarrow> nat \<Rightarrow> process \<Rightarrow> bool" where
  "count_inv cfg total0 s =
     (let g = globals s; ws = workers s in
      length ws = NUM_WORKER_THREADS cfg \<and>
      total_articles_written g + sum_list (map in_flight ws)
        \<le> max total0 (NUM_ARTICLES cfg + NUM_WORKER_THREADS cfg - 1) \<and>
      total0 + length (corpus g) = total_articles_written g + sum_list (map uncounted ws))"

text \<open>The list \<open>new_titles\<close> that the locked block computes from a batch.\<close>

definition new_titles_of :: "title list \<Rightarrow> globals \<Rightarrow> title list" where
  "new_titles_of batch g = snd (dedup_loop batch (seen_titles g) [])"

text \<open>The cooldown sleeps among the events.\<close>

definition cooldowns :: "(actor \<times> event) list \<Rightarrow> (actor \<times> event) list" where
  "cooldowns evs = filter (\<lambda>(a, ev). case ev of CooldownSleep d \<Rightarrow> True | _ \<Rightarrow> False) evs"

text \<open>
  The sampling calls of this step fail with an error that is not transient, at the first
  attempt or after some transient failures, before the attempts run out.
\<close>

definition permanent_error :: "config \<Rightarrow> env \<Rightarrow> bool" where
  "permanent_error cfg e =
     (\<exists>k < MAX_RETRIES cfg.
        (\<forall>j. 1 \<le> j \<and> j \<le> k \<longrightarrow> transient_at (random_calls e) j) \<and>
        (case random_calls e (k + 1) of Titles b \<Rightarrow> False | Raised m \<Rightarrow> \<not> is_transient m))"

text \<open>
  The three steps of one turn of the loop of worker \<open>i\<close> that finds no new title: the
  stop check, the sampling, the locked block.
\<close>

definition round_of :: "nat \<Rightarrow> env \<Rightarrow> action list" where
  "round_of i e = [WorkerAct i e, WorkerAct i e, WorkerAct i e]"

text \<open>
  Two states of the process that differ at most in \<open>consecutive_empty_batches\<close> and
  in events that are no cooldown sleeps.
\<close>

definition same_but_counter :: "process \<Rightarrow> process \<Rightarrow> bool" where
  "same_but_counter s s' =
     (workers s' = workers s \<and> monitor s' = monitor s \<and>
      seen_titles (globals s') = seen_titles (globals s) \<and>
      total_articles_written (globals s') = total_articles_written (globals s) \<and>
      seen_file (globals s') = seen_file (globals s) \<and>
      corpus (globals s') = corpus (globals s) \<and>
      cooldowns (events (globals s')) = cooldowns (events (globals s)))"





text \<open>
  Concrete answers of the world, for runs on concrete inputs: every sampling call gives
  \<open>r\<close>, the fetch gives \<open>p\<close>, both appends succeed.
\<close>

definition answers :: "sample_outcome \<Rightarrow> fetch_outcome \<Rightarrow> env" where
  "answers r p = \<lparr>random_calls = (\<lambda>k. r), seen_append = IoOk, page_fetch = p, corpus_append_ok = True\<rparr>"

text \<open>The same, with the first \<open>n\<close> sampling calls failing with the message HTTP.\<close>

definition answers_after :: "nat \<Rightarrow> sample_outcome \<Rightarrow> fetch_outcome \<Rightarrow> env" where
  "answers_after n r p =
     \<lparr>random_calls = (\<lambda>k. if k \<le> n then Raised [72, 84, 84, 80] else r), seen_append = IoOk,
      page_fetch = p, corpus_append_ok = True\<rparr>"

text \<open>A page of 51 words.\<close>

definition long_page :: ustring where
  "long_page = concat (replicate 51 [2309, 32])"

text \<open>The number of steps that worker \<open>i\<close> takes in a sequence of actions.\<close>

fun worker_steps :: "nat \<Rightarrow> action list \<Rightarrow> nat" where
  "worker_steps i [] = 0"
| "worker_steps i (WorkerAct j e # acts) = (if j = i then 1 else 0) + worker_steps i acts"
| "worker_steps i (MonitorAct ok # acts) = worker_steps i acts"

text \<open>The number of checks of the monitor in a sequence of actions.\<close>

fun monitor_steps :: "action list \<Rightarrow> nat" where
  "monitor_steps [] = 0"
| "monitor_steps (WorkerAct j e # acts) = monitor_steps acts"
| "monitor_steps (MonitorAct ok # acts) = 1 + monitor_steps acts"

text \<open>
  Once the target is reached, the number of its own steps after which a worker at this
  location has returned, at the latest.
\<close>

fun steps_to_stop :: "wloc \<Rightarrow> nat" where
  "steps_to_stop (Stopped r) = 0"
| "steps_to_stop CheckStop = 1"
| "steps_to_stop (EndBatch n) = 2"
| "steps_to_stop (FetchLoop ts n) = 3"
| "steps_to_stop (Counting t wc ts n) = 4"
| "steps_to_stop (Dedup b) = 4"
| "steps_to_stop (Fetching t ts n) = 5"
| "steps_to_stop SampleBatch = 5"

text \<open>
  A run with target 1 in which workers 0 and 1 both pass the target check before either
  has written; worker 0 then writes and counts its article.
\<close>

definition race_acts :: "action list" where
  "race_acts =
     replicate 4 (WorkerAct 0 (answers (Titles [[2309]]) (PageContent long_page))) @
     replicate 4 (WorkerAct 1 (answers (Titles [[2310]]) (PageContent long_page))) @
     replicate 2 (WorkerAct 0 (answers (Titles [[2309]]) (PageContent long_page)))"

text \<open>
  A run in which worker 0 meets two empty batches and then samples a batch with one new
  title, whose page has a single word.
\<close>

definition reset_acts :: "action list" where
  "reset_acts =
     replicate 6 (WorkerAct 0 (answers (Titles []) PageError)) @
     replicate 2 (WorkerAct 0 (answers (Titles [[2309]]) (PageContent [2309])))"

section \<open>Lemmas\<close>

lemma is_space_32: "is_space 32" by (simp add: is_space_def)

lemma sub_runs_id: "\<forall>c\<in>set s. \<not> P c \<Longrightarrow> sub_runs P s = s"
  by (induction s) auto

lemma set_sub_runs: "c \<in> set (sub_runs P s) \<Longrightarrow> c = 32 \<or> (c \<in> set s \<and> \<not> P c)"
proof (induction P s rule: sub_runs.induct)
  case (1 P)
  then show ?case by simp
next
  case (2 P d ds)
  then show ?case by (auto split: if_splits dest: set_dropWhileD)
qed

lemma spaced_tl: "spaced (c # cs) \<Longrightarrow> spaced cs"
  by (cases cs) auto

lemma spaced_Cons_nonspace: "\<not> is_space c \<Longrightarrow> spaced (c # cs) = spaced cs"
  by (cases cs) auto

lemma spaced_Cons_space:
  "spaced (32 # cs) = ((cs = [] \<or> \<not> is_space (hd cs)) \<and> spaced cs)"
  by (cases cs) (auto simp: is_space_32)

lemma sub_runs_fixed: "spaced s \<Longrightarrow> sub_runs is_space s = s"
proof (induction s rule: spaced.induct)
  case 1
  then show ?case by simp
next
  case (2 c)
  then show ?case by simp
next
  case (3 c d cs)
  then show ?case by auto
qed

lemma hd_sub_runs: "s \<noteq> [] \<Longrightarrow> \<not> P (hd s) \<Longrightarrow> hd (sub_runs P s) = hd s \<and> sub_runs P s \<noteq> []"
  by (cases s) auto

lemma spaced_sub_runs: "spaced (sub_runs is_space s)"
proof (induction "is_space" s rule: sub_runs.induct)
  case 1
  then show ?case by simp
next
  case (2 c cs)
  show ?case
  proof (cases "is_space c")
    case True
    let ?r = "dropWhile is_space cs"
    have "sub_runs is_space ?r = [] \<or> \<not> is_space (hd (sub_runs is_space ?r))"
    proof (cases "?r = []")
      case True
      then have "sub_runs is_space ?r = []" by (simp only: sub_runs.simps)
      then show ?thesis by (rule disjI1)
    next
      case False
      then have "\<not> is_space (hd ?r)" by (rule hd_dropWhile)
      with False show ?thesis by (simp add: hd_sub_runs)
    qed
    with True 2 show ?thesis by (simp add: spaced_Cons_space)
  next
    case False
    with 2 show ?thesis by (simp add: spaced_Cons_nonspace)
  qed
qed

lemma spaced_dropWhile: "spaced s \<Longrightarrow> spaced (dropWhile P s)"
  by (induction s) (auto dest: spaced_tl)

lemma spaced_prefix: "spaced (a @ b) \<Longrightarrow> spaced a"
proof (induction a rule: spaced.induct)
  case 1
  then show ?case by simp
next
  case (2 c)
  then show ?case by (cases b) auto
next
  case (3 c d cs)
  then show ?case by auto
qed

lemma strip_prefix: "rev (dropWhile P (rev u)) @ rev (takeWhile P (rev u)) = u"
proof -
  have "rev (takeWhile P (rev u) @ dropWhile P (rev u)) = u" by simp
  then show ?thesis by (simp only: rev_append)
qed

lemma spaced_strip: "spaced s \<Longrightarrow> spaced (strip s)"
proof -
  assume "spaced s"
  then have "spaced (dropWhile is_space s)" by (rule spaced_dropWhile)
  then have "spaced (rev (dropWhile is_space (rev (dropWhile is_space s))) @
                     rev (takeWhile is_space (rev (dropWhile is_space s))))"
    by (simp only: strip_prefix)
  then show ?thesis unfolding strip_def by (rule spaced_prefix)
qed

lemma set_strip: "set (strip s) \<subseteq> set s"
  unfolding strip_def by (auto dest!: set_dropWhileD)

lemma strip_fixed: "trimmed s \<Longrightarrow> strip s = s"
proof (cases "s = []")
  case True
  then show ?thesis by (simp add: strip_def)
next
  case False
  assume "trimmed s"
  with False have h: "\<not> is_space (hd s)" and l: "\<not> is_space (last s)"
    by (simp_all add: trimmed_def)
  from False h have "dropWhile is_space s = s" by (simp add: dropWhile_eq_self_iff)
  moreover from False l have "dropWhile is_space (rev s) = rev s"
    by (simp add: dropWhile_eq_self_iff hd_rev)
  ultimately show ?thesis by (simp add: strip_def)
qed

lemma trimmed_strip: "trimmed (strip s)"
proof (cases "strip s = []")
  case True
  then show ?thesis by (simp add: trimmed_def)
next
  case False
  let ?u = "dropWhile is_space s"
  let ?z = "rev (dropWhile is_space (rev ?u))"
  have z: "strip s = ?z" by (simp add: strip_def)
  have u: "?z @ rev (takeWhile is_space (rev ?u)) = ?u" by (rule strip_prefix)
  from False z have zne: "?z \<noteq> []" by simp
  with u have une: "?u \<noteq> []" by (metis append_is_Nil_conv)
  from u zne have "hd ?u = hd ?z" by (metis hd_append2)
  moreover from une have "\<not> is_space (hd ?u)" by (rule hd_dropWhile)
  ultimately have h: "\<not> is_space (hd ?z)" by simp
  from zne have "dropWhile is_space (rev ?u) \<noteq> []" by simp
  then have "\<not> is_space (hd (dropWhile is_space (rev ?u)))" by (rule hd_dropWhile)
  then have l: "\<not> is_space (last ?z)" by (simp add: last_rev)
  from h l z show ?thesis by (simp add: trimmed_def)
qed

lemma clean_text_allowed: "c \<in> set (clean_text x) \<Longrightarrow> allowed c"
proof -
  assume "c \<in> set (clean_text x)"
  then have "c \<in> set (sub_runs is_space (sub_runs (\<lambda>c. \<not> allowed c) x))"
    using set_strip by (auto simp: clean_text_def Let_def)
  then have "c = 32 \<or> c \<in> set (sub_runs (\<lambda>c. \<not> allowed c) x)"
    by (auto dest: set_sub_runs)
  then have "c = 32 \<or> allowed c" by (auto dest: set_sub_runs)
  then show ?thesis by (auto simp: allowed_def is_space_32)
qed

lemma clean_text_spaced: "spaced (clean_text x)"
  by (simp add: clean_text_def Let_def spaced_strip spaced_sub_runs)

lemma clean_text_trimmed: "trimmed (clean_text x)"
  by (simp add: clean_text_def Let_def trimmed_strip)

lemma clean_text_fixed:
  assumes "\<forall>c\<in>set x. allowed c" and "spaced x" and "trimmed x"
  shows "clean_text x = x"
proof -
  from assms(1) have "sub_runs (\<lambda>c. \<not> allowed c) x = x" by (simp add: sub_runs_id)
  moreover from assms(2) have "sub_runs is_space x = x" by (rule sub_runs_fixed)
  moreover from assms(3) have "strip x = x" by (rule strip_fixed)
  ultimately show ?thesis by (simp add: clean_text_def)
qed





lemma fails_from_step: "a \<le> k \<Longrightarrow> backoff cfg a @ fails_from cfg (Suc a) k = fails_from cfg a k"
proof -
  assume "a \<le> k"
  then have "[a..<Suc k] = a # [Suc a..<Suc k]" by (simp add: upt_conv_Cons del: upt_Suc)
  then show ?thesis by (simp add: fails_from_def del: upt_Suc)
qed

lemma fails_from_empty: "k < a \<Longrightarrow> fails_from cfg a k = []"
  by (simp add: fails_from_def)

lemma retry_loop_general:
  "1 \<le> a \<Longrightarrow> a \<le> MAX_RETRIES cfg + 1 \<Longrightarrow>
   \<exists>k. a \<le> k + 1 \<and> k \<le> MAX_RETRIES cfg \<and> (\<forall>j. a \<le> j \<and> j \<le> k \<longrightarrow> transient_at api j) \<and>
     ((\<exists>b. k < MAX_RETRIES cfg \<and> api (k + 1) = Titles b \<and>
            retry_loop cfg api a = (Sampled b, fails_from cfg a k @ [ApiRandom])) \<or>
      (\<exists>m. k < MAX_RETRIES cfg \<and> api (k + 1) = Raised m \<and> \<not> is_transient m \<and>
            retry_loop cfg api a = (Aborted, fails_from cfg a k @ [ApiRandom, LogCriticalError])) \<or>
      (k = MAX_RETRIES cfg \<and>
       retry_loop cfg api a =
         (Exhausted, fails_from cfg a k @ [LogFailedAfterRetries, CooldownSleep 30])))"
proof (induction cfg api a rule: retry_loop.induct)
  case (1 cfg api a)
  show ?case
  proof (cases "MAX_RETRIES cfg < a")
    case True
    with 1(3) have a: "a = MAX_RETRIES cfg + 1" by simp
    have "retry_loop cfg api a = (Exhausted, [LogFailedAfterRetries, CooldownSleep 30])"
      using True by (simp add: retry_loop.simps)
    with a show ?thesis
      by (intro exI [of _ "MAX_RETRIES cfg"]) (auto simp: fails_from_empty)
  next
    case False
    note inrange = this
    show ?thesis
    proof (cases "api a")
      case (Titles b)
      with inrange have "retry_loop cfg api a = (Sampled b, [ApiRandom])"
        by (simp add: retry_loop.simps)
      with Titles inrange 1(2) show ?thesis
        by (intro exI [of _ "a - 1"]) (auto simp: fails_from_empty)
    next
      case (Raised m)
      show ?thesis
      proof (cases "is_transient m")
        case False
        with Raised inrange have "retry_loop cfg api a = (Aborted, [ApiRandom, LogCriticalError])"
          by (simp add: retry_loop.simps)
        with Raised False inrange 1(2) show ?thesis
          by (intro exI [of _ "a - 1"]) (auto simp: fails_from_empty)
      next
        case True
        have "1 \<le> a + 1" "a + 1 \<le> MAX_RETRIES cfg + 1" using inrange by simp_all
        from 1(1) [OF inrange Raised True this]
        obtain k where k: "a + 1 \<le> k + 1" "k \<le> MAX_RETRIES cfg"
          "\<forall>j. a + 1 \<le> j \<and> j \<le> k \<longrightarrow> transient_at api j"
          and res: "(\<exists>b. k < MAX_RETRIES cfg \<and> api (k + 1) = Titles b \<and>
            retry_loop cfg api (a + 1) = (Sampled b, fails_from cfg (a + 1) k @ [ApiRandom])) \<or>
      (\<exists>m. k < MAX_RETRIES cfg \<and> api (k + 1) = Raised m \<and> \<not> is_transient m \<and>
            retry_loop cfg api (a + 1) = (Aborted, fails_from cfg (a + 1) k @ [ApiRandom, LogCriticalError])) \<or>
      (k = MAX_RETRIES cfg \<and>
       retry_loop cfg api (a + 1) =
         (Exhausted, fails_from cfg (a + 1) k @ [LogFailedAfterRetries, CooldownSleep 30]))"
          by blast
        have unfold: "retry_loop cfg api a =
            (case retry_loop cfg api (a + 1) of (r, evs) \<Rightarrow> (r, backoff cfg a @ evs))"
          using inrange Raised True by (subst retry_loop.simps) (simp add: backoff_def)
        have ak: "a \<le> k" using k(1) by simp
        have tr: "\<forall>j. a \<le> j \<and> j \<le> k \<longrightarrow> transient_at api j"
        proof (intro allI impI)
          fix j assume j: "a \<le> j \<and> j \<le> k"
          show "transient_at api j"
          proof (cases "j = a")
            case True
            with Raised \<open>is_transient m\<close> show ?thesis by (simp add: transient_at_def)
          next
            case False
            with j k(3) show ?thesis by simp
          qed
        qed
        have fs: "\<And>tl. backoff cfg a @ fails_from cfg (a + 1) k @ tl = fails_from cfg a k @ tl"
          using fails_from_step [OF ak, of cfg] by simp
        from res unfold fs have "(\<exists>b. k < MAX_RETRIES cfg \<and> api (k + 1) = Titles b \<and>
            retry_loop cfg api a = (Sampled b, fails_from cfg a k @ [ApiRandom])) \<or>
      (\<exists>m. k < MAX_RETRIES cfg \<and> api (k + 1) = Raised m \<and> \<not> is_transient m \<and>
            retry_loop cfg api a = (Aborted, fails_from cfg a k @ [ApiRandom, LogCriticalError])) \<or>
      (k = MAX_RETRIES cfg \<and>
       retry_loop cfg api a =
         (Exhausted, fails_from cfg a k @ [LogFailedAfterRetries, CooldownSleep 30]))"
          by auto
        with ak k(2) tr show ?thesis by (intro exI [of _ k]) simp
      qed
    qed
  qed
qed

lemma filter_insert_eval:
  "Set.filter P (insert x A) = (if P x then insert x (Set.filter P A) else Set.filter P A)"
  by auto

lemma filter_empty_eval: "Set.filter P {} = {}"
  by auto

lemma dedup_loop_effect:
  "dedup_loop batch seen acc = (seen', new) \<Longrightarrow>
   seen' = seen \<union> set batch \<and>
   (\<exists>added. new = acc @ added \<and> distinct added \<and> set added = set batch - seen)"
proof (induction batch seen acc rule: dedup_loop.induct)
  case (1 seen new_titles)
  then show ?case by simp
next
  case (2 t ts seen new_titles)
  show ?case
  proof (cases "t \<in> seen")
    case True
    with 2 show ?thesis by auto
  next
    case False
    with 2 obtain added where a: "seen' = insert t seen \<union> set ts"
      "new = (new_titles @ [t]) @ added" "distinct added" "set added = set ts - insert t seen"
      by auto
    then have "new = new_titles @ (t # added)" "distinct (t # added)"
      "set (t # added) = set (t # ts) - seen"
      using False by auto
    with a(1) show ?thesis by (intro conjI exI [of _ "t # added"]) auto
  qed
qed

lemma persist_effect: "persist io new f = (f', ev) \<Longrightarrow> \<exists>k. f' = f @ take k (titles_text new)"
  by (cases io) (auto simp: persist_def intro: exI [of _ "length (titles_text new)"])

lemma emit_fields [simp]:
  "seen_titles (emit a evs g) = seen_titles g"
  "total_articles_written (emit a evs g) = total_articles_written g"
  "consecutive_empty_batches (emit a evs g) = consecutive_empty_batches g"
  "seen_file (emit a evs g) = seen_file g"
  "corpus (emit a evs g) = corpus g"
  "events (emit a evs g) = events g @ map (Pair a) evs"
  by (simp_all add: emit_def)

lemma titles_effect_quiet:
  "seen_titles g' = seen_titles g \<Longrightarrow> seen_file g' = seen_file g \<Longrightarrow> corpus g' = corpus g \<Longrightarrow>
   pending w = dropped @ pending w' \<Longrightarrow> titles_effect g w g' w' [] 0 [] dropped"
  by (simp add: titles_effect_def)

lemma worker_step_titles:
  assumes "worker_step cfg tid e g w = (g', w')"
  shows "\<exists>new k wr dropped. titles_effect g w g' w' new k wr dropped"
proof (cases w)
  case CheckStop
  with assms have "titles_effect g w g' w' [] 0 [] []"
    by (intro titles_effect_quiet) (auto split: if_splits)
  then show ?thesis by blast
next
  case SampleBatch
  with assms have "titles_effect g w g' w' [] 0 [] []"
    by (intro titles_effect_quiet) (auto split: prod.splits sample_result.splits)
  then show ?thesis by blast
next
  case (Dedup batch)
  obtain seen new where d: "dedup_loop batch (seen_titles g) [] = (seen, new)"
    by (cases "dedup_loop batch (seen_titles g) []")
  from dedup_loop_effect [OF d]
  have s: "seen = seen_titles g \<union> set batch" and n: "distinct new" "set new = set batch - seen_titles g"
    by auto
  show ?thesis
  proof (cases "new = []")
    case True
    with assms Dedup d have "seen_titles g' = seen" "seen_file g' = seen_file g"
      "corpus g' = corpus g" "w' = CheckStop" by auto
    with s n True Dedup have "titles_effect g w g' w' [] 0 [] []"
      by (intro titles_effect_quiet) auto
    then show ?thesis by blast
  next
    case False
    obtain f ev where p: "persist (seen_append e) new (seen_file g) = (f, ev)"
      by (cases "persist (seen_append e) new (seen_file g)")
    from persist_effect [OF p] obtain k where k: "f = seen_file g @ take k (titles_text new)" by blast
    from assms Dedup d False p have "g' = emit (Worker tid) [ev]
        (g\<lparr>seen_titles := seen, consecutive_empty_batches := 0, seen_file := f\<rparr>)"
      "w' = FetchLoop new 0" by auto
    with s n k Dedup have "titles_effect g w g' w' new k [] []"
      by (auto simp: titles_effect_def)
    then show ?thesis by blast
  qed
next
  case (FetchLoop ts n)
  from assms FetchLoop have g: "g' = g"
    by (cases ts) (auto split: if_splits)
  show ?thesis
  proof (cases "w' = EndBatch n")
    case True
    with g FetchLoop have "titles_effect g w g' w' [] 0 [] ts"
      by (intro titles_effect_quiet) auto
    then show ?thesis by blast
  next
    case False
    with assms FetchLoop obtain t ts' where "ts = t # ts'" "w' = Fetching t ts' n"
      by (cases ts) (auto split: if_splits)
    with g FetchLoop have "titles_effect g w g' w' [] 0 [] []"
      by (intro titles_effect_quiet) auto
    then show ?thesis by blast
  qed
next
  case (Fetching t ts n)
  show ?thesis
  proof (cases "corpus g' = corpus g")
    case True
    with assms Fetching have "w' = FetchLoop ts n \<and> seen_titles g' = seen_titles g \<and> seen_file g' = seen_file g"
      by (auto simp: Let_def split: fetch_outcome.splits if_splits)
    with True Fetching have "titles_effect g w g' w' [] 0 [] [t]"
      by (intro titles_effect_quiet) auto
    then show ?thesis by blast
  next
    case False
    with assms Fetching obtain c wc where "w' = Counting t wc ts n" "corpus g' = corpus g @ [(t, c)]"
      "seen_titles g' = seen_titles g" "seen_file g' = seen_file g"
      by (auto simp: Let_def split: fetch_outcome.splits if_splits)
    with Fetching have "titles_effect g w g' w' [] 0 [(t, c)] []"
      by (simp add: titles_effect_def)
    then show ?thesis by blast
  qed
next
  case (Counting t wc ts n)
  with assms have "titles_effect g w g' w' [] 0 [] []"
    by (intro titles_effect_quiet) auto
  then show ?thesis by blast
next
  case (EndBatch n)
  with assms have "titles_effect g w g' w' [] 0 [] []"
    by (intro titles_effect_quiet) (auto split: if_splits)
  then show ?thesis by blast
next
  case (Stopped r)
  with assms have "titles_effect g w g' w' [] 0 [] []"
    by (intro titles_effect_quiet) auto
  then show ?thesis by blast
qed





lemma in_flight_le_1: "in_flight w \<le> 1"
  by (cases w) simp_all

lemma uncounted_le_in_flight: "uncounted w \<le> in_flight w"
  by (cases w) simp_all

lemma sum_in_flight_le: "sum_list (map in_flight ws) \<le> length ws"
proof (induction ws)
  case Nil
  then show ?case by simp
next
  case (Cons w ws)
  with in_flight_le_1 [of w] show ?case by simp
qed

lemma sum_uncounted_le: "sum_list (map uncounted ws) \<le> sum_list (map in_flight ws)"
proof (induction ws)
  case Nil
  then show ?case by simp
next
  case (Cons w ws)
  with uncounted_le_in_flight [of w] show ?case by simp
qed

lemma sum_list_map_update:
  "i < length ws \<Longrightarrow>
   sum_list (map f (ws[i := w'])) + f (ws ! i) = sum_list (map f ws) + (f w' :: nat)"
proof (induction ws arbitrary: i)
  case Nil
  then show ?case by simp
next
  case (Cons w ws)
  then show ?case by (cases i) auto
qed

lemma worker_step_count:
  assumes "worker_step cfg tid e g w = (g', w')"
  shows "(total_articles_written g' + in_flight w' \<le> total_articles_written g + in_flight w \<or>
          (in_flight w = 0 \<and> in_flight w' = 1 \<and> total_articles_written g' = total_articles_written g \<and>
           total_articles_written g < NUM_ARTICLES cfg)) \<and>
         length (corpus g') + total_articles_written g + uncounted w =
           length (corpus g) + total_articles_written g' + uncounted w' \<and>
         total_articles_written g \<le> total_articles_written g'"
proof (cases w)
  case CheckStop
  with assms show ?thesis by (auto split: if_splits)
next
  case SampleBatch
  with assms show ?thesis by (auto split: prod.splits sample_result.splits)
next
  case (Dedup batch)
  with assms show ?thesis by (auto split: prod.splits if_splits)
next
  case (FetchLoop ts n)
  with assms show ?thesis by (cases ts) (auto split: if_splits)
next
  case (Fetching t ts n)
  with assms show ?thesis by (auto simp: Let_def split: fetch_outcome.splits if_splits)
next
  case (Counting t wc ts n)
  with assms show ?thesis by auto
next
  case (EndBatch n)
  with assms show ?thesis by (auto split: if_splits)
next
  case (Stopped r)
  with assms show ?thesis by auto
qed

lemma monitor_step_globals:
  assumes "monitor_step cfg ok g m = (g', m')"
  shows "seen_titles g' = seen_titles g \<and> total_articles_written g' = total_articles_written g \<and>
         consecutive_empty_batches g' = consecutive_empty_batches g \<and>
         seen_file g' = seen_file g \<and> corpus g' = corpus g"
  using assms by (cases m) (auto simp: Let_def split: if_splits)

lemma count_inv_worker:
  assumes inv: "count_inv cfg total0 s" and i: "i < length (workers s)"
  shows "count_inv cfg total0 (process_step cfg (WorkerAct i e) s)"
proof -
  let ?g = "globals s" and ?ws = "workers s"
  let ?B = "max total0 (NUM_ARTICLES cfg + NUM_WORKER_THREADS cfg - 1)"
  obtain g' w' where st: "worker_step cfg i e ?g (?ws ! i) = (g', w')"
    by (cases "worker_step cfg i e ?g (?ws ! i)")
  from inv have len: "length ?ws = NUM_WORKER_THREADS cfg"
    and bound: "total_articles_written ?g + sum_list (map in_flight ?ws) \<le> ?B"
    and acc: "total0 + length (corpus ?g) = total_articles_written ?g + sum_list (map uncounted ?ws)"
    by (simp_all add: count_inv_def Let_def)
  from worker_step_count [OF st]
  have fl: "total_articles_written g' + in_flight w' \<le> total_articles_written ?g + in_flight (?ws ! i) \<or>
          (in_flight (?ws ! i) = 0 \<and> in_flight w' = 1 \<and>
           total_articles_written g' = total_articles_written ?g \<and>
           total_articles_written ?g < NUM_ARTICLES cfg)"
    and un: "length (corpus g') + total_articles_written ?g + uncounted (?ws ! i) =
           length (corpus ?g) + total_articles_written g' + uncounted w'"
    by simp_all
  let ?ws' = "?ws[i := w']"
  from i have sf: "sum_list (map in_flight ?ws') + in_flight (?ws ! i) =
      sum_list (map in_flight ?ws) + in_flight w'" by (rule sum_list_map_update)
  from i have su: "sum_list (map uncounted ?ws') + uncounted (?ws ! i) =
      sum_list (map uncounted ?ws) + uncounted w'" by (rule sum_list_map_update)
  have b': "total_articles_written g' + sum_list (map in_flight ?ws') \<le> ?B"
    using fl
  proof
    assume "total_articles_written g' + in_flight w' \<le> total_articles_written ?g + in_flight (?ws ! i)"
    with sf bound show ?thesis by linarith
  next
    assume en: "in_flight (?ws ! i) = 0 \<and> in_flight w' = 1 \<and>
           total_articles_written g' = total_articles_written ?g \<and>
           total_articles_written ?g < NUM_ARTICLES cfg"
    have "sum_list (map in_flight ?ws') \<le> length ?ws'" by (rule sum_in_flight_le)
    with len have "sum_list (map in_flight ?ws') \<le> NUM_WORKER_THREADS cfg" by simp
    with en have "total_articles_written g' + sum_list (map in_flight ?ws')
        \<le> NUM_ARTICLES cfg + NUM_WORKER_THREADS cfg - 1" by linarith
    then show ?thesis by simp
  qed
  have a': "total0 + length (corpus g') = total_articles_written g' + sum_list (map uncounted ?ws')"
    using acc un su by linarith
  from st i have "globals (process_step cfg (WorkerAct i e) s) = g'"
    "workers (process_step cfg (WorkerAct i e) s) = ?ws'" by simp_all
  with len b' a' show ?thesis by (simp add: count_inv_def Let_def)
qed

lemma count_inv_step:
  assumes "count_inv cfg total0 s"
  shows "count_inv cfg total0 (process_step cfg a s)"
proof (cases a)
  case (WorkerAct i e)
  show ?thesis
  proof (cases "i < length (workers s)")
    case True
    with assms WorkerAct show ?thesis by (simp only: count_inv_worker)
  next
    case False
    with assms WorkerAct show ?thesis by simp
  qed
next
  case (MonitorAct ok)
  obtain g m where m: "monitor_step cfg ok (globals s) (monitor s) = (g, m)"
    by (cases "monitor_step cfg ok (globals s) (monitor s)")
  from monitor_step_globals [OF m] assms m MonitorAct show ?thesis
    by (simp add: count_inv_def Let_def)
qed

lemma count_inv_run: "count_inv cfg total0 s \<Longrightarrow> count_inv cfg total0 (run cfg acts s)"
  by (induction acts arbitrary: s) (simp_all add: count_inv_step)

lemma count_inv_start:
  "count_inv cfg (snd (load_seen_titles (map_option read_lines f))) (start cfg f)"
  by (cases "load_seen_titles (map_option read_lines f)")
     (simp add: start_def count_inv_def sum_list_replicate)

lemma total_mono_step:
  "total_articles_written (globals s) \<le> total_articles_written (globals (process_step cfg a s))"
proof (cases a)
  case (WorkerAct i e)
  obtain g' w' where st: "worker_step cfg i e (globals s) (workers s ! i) = (g', w')"
    by (cases "worker_step cfg i e (globals s) (workers s ! i)")
  from worker_step_count [OF st] st WorkerAct show ?thesis by simp
next
  case (MonitorAct ok)
  obtain g m where m: "monitor_step cfg ok (globals s) (monitor s) = (g, m)"
    by (cases "monitor_step cfg ok (globals s) (monitor s)")
  from monitor_step_globals [OF m] m MonitorAct show ?thesis by simp
qed

lemma total_mono_run:
  "total_articles_written (globals s) \<le> total_articles_written (globals (run cfg acts s))"
proof (induction acts arbitrary: s)
  case Nil
  then show ?case by simp
next
  case (Cons a acts)
  have "total_articles_written (globals s) \<le> total_articles_written (globals (process_step cfg a s))"
    by (rule total_mono_step)
  also have "\<dots> \<le> total_articles_written (globals (run cfg acts (process_step cfg a s)))"
    by (rule Cons.IH)
  finally show ?case by simp
qed

lemma seen_mono_step:
  "seen_titles (globals s) \<subseteq> seen_titles (globals (process_step cfg a s))"
proof (cases a)
  case (WorkerAct i e)
  obtain g' w' where st: "worker_step cfg i e (globals s) (workers s ! i) = (g', w')"
    by (cases "worker_step cfg i e (globals s) (workers s ! i)")
  from worker_step_titles [OF st] st WorkerAct show ?thesis by (auto simp: titles_effect_def)
next
  case (MonitorAct ok)
  obtain g m where m: "monitor_step cfg ok (globals s) (monitor s) = (g, m)"
    by (cases "monitor_step cfg ok (globals s) (monitor s)")
  from monitor_step_globals [OF m] m MonitorAct show ?thesis by simp
qed

lemma seen_mono_run:
  "seen_titles (globals s) \<subseteq> seen_titles (globals (run cfg acts s))"
proof (induction acts arbitrary: s)
  case Nil
  then show ?case by simp
next
  case (Cons a acts)
  have "seen_titles (globals s) \<subseteq> seen_titles (globals (process_step cfg a s))"
    by (rule seen_mono_step)
  also have "\<dots> \<subseteq> seen_titles (globals (run cfg acts (process_step cfg a s)))"
    by (rule Cons.IH)
  finally show ?case by simp
qed

lemma monitor_keeps_counter:
  "consecutive_empty_batches (globals (process_step cfg (MonitorAct ok) s)) =
     consecutive_empty_batches (globals s)"
proof -
  obtain g m where m: "monitor_step cfg ok (globals s) (monitor s) = (g, m)"
    by (cases "monitor_step cfg ok (globals s) (monitor s)")
  from monitor_step_globals [OF m] m show ?thesis by simp
qed

lemma count_api_fails1: "length (filter (\<lambda>ev. ev = ApiRandom) (fails_from cfg (Suc 0) k)) = k"
  by (induction k) (auto simp: fails_from_def backoff_def)

lemma new_titles_of_fresh: "set (new_titles_of batch g) = set batch - seen_titles g"
proof -
  obtain seen new where d: "dedup_loop batch (seen_titles g) [] = (seen, new)"
    by (cases "dedup_loop batch (seen_titles g) []")
  from dedup_loop_effect [OF d] d show ?thesis by (auto simp: new_titles_of_def)
qed

lemma dedup_loop_seen: "fst (dedup_loop batch seen acc) = seen \<union> set batch"
proof -
  obtain seen' new where d: "dedup_loop batch seen acc = (seen', new)"
    by (cases "dedup_loop batch seen acc")
  from dedup_loop_effect [OF d] d show ?thesis by simp
qed

lemma cooldowns_append: "cooldowns (xs @ ys) = cooldowns xs @ cooldowns ys"
  by (simp add: cooldowns_def)

lemma cooldowns_backoffs: "cooldowns (map (Pair a) (concat (map (backoff cfg) js))) = []"
  by (induction js) (auto simp: backoff_def cooldowns_def)

lemma cooldowns_fails_from: "cooldowns (map (Pair a) (fails_from cfg b k)) = []"
  unfolding fails_from_def by (rule cooldowns_backoffs)

lemma cooldowns_abort: "cooldowns (map (Pair a) (fails_from cfg b k @ [ApiRandom, LogCriticalError])) = []"
proof -
  have "cooldowns (map (Pair a) [ApiRandom, LogCriticalError]) = []" by (simp add: cooldowns_def)
  then show ?thesis by (simp only: map_append cooldowns_append cooldowns_fails_from append_Nil)
qed

lemma permanent_error_aborts:
  assumes "permanent_error cfg e"
  shows "\<exists>evs. retry_loop cfg (random_calls e) 1 = (Aborted, evs) \<and> cooldowns (map (Pair a) evs) = []"
proof -
  from assms obtain k where k0: "k < MAX_RETRIES cfg"
    "\<forall>j. 1 \<le> j \<and> j \<le> k \<longrightarrow> transient_at (random_calls e) j"
    and c: "case random_calls e (k + 1) of Titles b \<Rightarrow> False | Raised m \<Rightarrow> \<not> is_transient m"
    unfolding permanent_error_def by blast
  from c obtain m where m: "random_calls e (k + 1) = Raised m" "\<not> is_transient m"
    by (cases "random_calls e (k + 1)") simp_all
  note k = k0 m
  then have nt: "\<not> transient_at (random_calls e) (k + 1)" by (simp add: transient_at_def)
  have "1 \<le> (1::nat)" "1 \<le> MAX_RETRIES cfg + 1" by simp_all
  from retry_loop_general [OF this, of "random_calls e"]
  obtain k' where k': "k' \<le> MAX_RETRIES cfg"
      "\<forall>j. 1 \<le> j \<and> j \<le> k' \<longrightarrow> transient_at (random_calls e) j"
    and res: "(\<exists>b. k' < MAX_RETRIES cfg \<and> random_calls e (k' + 1) = Titles b \<and>
            retry_loop cfg (random_calls e) 1 = (Sampled b, fails_from cfg 1 k' @ [ApiRandom])) \<or>
      (\<exists>m. k' < MAX_RETRIES cfg \<and> random_calls e (k' + 1) = Raised m \<and> \<not> is_transient m \<and>
            retry_loop cfg (random_calls e) 1 = (Aborted, fails_from cfg 1 k' @ [ApiRandom, LogCriticalError])) \<or>
      (k' = MAX_RETRIES cfg \<and>
       retry_loop cfg (random_calls e) 1 =
         (Exhausted, fails_from cfg 1 k' @ [LogFailedAfterRetries, CooldownSleep 30]))"
    by blast
  have le: "k' \<le> k"
  proof (rule ccontr)
    assume "\<not> k' \<le> k"
    then have "1 \<le> k + 1 \<and> k + 1 \<le> k'" by simp
    with k'(2) have "transient_at (random_calls e) (k + 1)" by blast
    with nt show False by simp
  qed
  from res show ?thesis
  proof (elim disjE exE conjE)
    fix b assume b: "random_calls e (k' + 1) = Titles b"
    then have "\<not> transient_at (random_calls e) (k' + 1)" by (simp add: transient_at_def)
    with k(2) have "\<not> k' + 1 \<le> k" by auto
    with le have "k' = k" by simp
    with b k(3) show ?thesis by simp
  next
    fix m' assume "retry_loop cfg (random_calls e) 1 =
       (Aborted, fails_from cfg 1 k' @ [ApiRandom, LogCriticalError])"
    with cooldowns_abort [of a cfg 1 k'] show ?thesis by blast
  next
    assume "k' = MAX_RETRIES cfg"
    with le k(1) show ?thesis by simp
  qed
qed

lemma dedup_loop_Nil: "dedup_loop [] seen acc = (seen, acc)"
  by simp

lemma permanent_round:
  assumes i: "i < length (workers s)" and w: "workers s ! i = CheckStop"
    and t: "total_articles_written (globals s) < NUM_ARTICLES cfg"
    and c: "consecutive_empty_batches (globals s) < CONSECUTIVE_EMPTY_THRESHOLD cfg"
    and p: "permanent_error cfg e"
  shows "same_but_counter s (run cfg (round_of i e) s) \<and>
         consecutive_empty_batches (globals (run cfg (round_of i e) s)) =
           consecutive_empty_batches (globals s) + 1"
proof -
  from permanent_error_aborts [OF p, of "Worker i"] obtain evs
    where r: "retry_loop cfg (random_calls e) 1 = (Aborted, evs)"
      and cd: "cooldowns (map (Pair (Worker i)) evs) = []" by blast
  let ?s1 = "process_step cfg (WorkerAct i e) s"
  from i w t c have s1: "?s1 = s\<lparr>workers := (workers s)[i := SampleBatch]\<rparr>" by simp
  let ?s2 = "process_step cfg (WorkerAct i e) ?s1"
  from i r s1 have s2: "?s2 = s\<lparr>globals := emit (Worker i) evs (globals s),
      workers := (workers s)[i := Dedup []]\<rparr>" by simp
  let ?s3 = "process_step cfg (WorkerAct i e) ?s2"
  from i s2 have s3: "?s3 = s\<lparr>globals := emit (Worker i)
        [LogNoNewTitles (consecutive_empty_batches (globals s) + 1)]
        ((emit (Worker i) evs (globals s))\<lparr>
           consecutive_empty_batches := consecutive_empty_batches (globals s) + 1\<rparr>),
      workers := (workers s)[i := CheckStop]\<rparr>" by simp
  have run: "run cfg (round_of i e) s = ?s3" by (simp add: round_of_def)
  from w i have ws: "(workers s)[i := CheckStop] = workers s" by (metis list_update_id)
  show ?thesis unfolding run s3 same_but_counter_def
    using ws cd by (simp add: cooldowns_append) (simp add: cooldowns_def)
qed

lemma same_but_counter_trans:
  "same_but_counter s s' \<Longrightarrow> same_but_counter s' s'' \<Longrightarrow> same_but_counter s s''"
  by (simp add: same_but_counter_def)

lemma run_append: "run cfg (as @ bs) s = run cfg bs (run cfg as s)"
  by (induction as arbitrary: s) simp_all

lemma permanent_rounds:
  assumes i: "i < length (workers s)" and w: "workers s ! i = CheckStop"
    and t: "total_articles_written (globals s) < NUM_ARTICLES cfg"
    and p: "permanent_error cfg e"
  shows "consecutive_empty_batches (globals s) + n \<le> CONSECUTIVE_EMPTY_THRESHOLD cfg \<Longrightarrow>
         same_but_counter s (run cfg (concat (replicate n (round_of i e))) s) \<and>
         consecutive_empty_batches (globals (run cfg (concat (replicate n (round_of i e))) s)) =
           consecutive_empty_batches (globals s) + n"
proof (induction n)
  case 0
  then show ?case by (simp add: same_but_counter_def)
next
  case (Suc n)
  let ?sn = "run cfg (concat (replicate n (round_of i e))) s"
  from Suc have IH: "same_but_counter s ?sn"
    "consecutive_empty_batches (globals ?sn) = consecutive_empty_batches (globals s) + n"
    by simp_all
  from IH(1) i w t have i': "i < length (workers ?sn)" and w': "workers ?sn ! i = CheckStop"
    and t': "total_articles_written (globals ?sn) < NUM_ARTICLES cfg"
    by (simp_all add: same_but_counter_def)
  from IH(2) Suc.prems have c': "consecutive_empty_batches (globals ?sn) < CONSECUTIVE_EMPTY_THRESHOLD cfg"
    by simp
  from permanent_round [OF i' w' t' c' p]
  have st: "same_but_counter ?sn (run cfg (round_of i e) ?sn)"
    "consecutive_empty_batches (globals (run cfg (round_of i e) ?sn)) =
       consecutive_empty_batches (globals ?sn) + 1" by simp_all
  have "concat (replicate (Suc n) (round_of i e)) = concat (replicate n (round_of i e)) @ round_of i e"
  proof -
    have "replicate (Suc n) (round_of i e) = replicate n (round_of i e) @ [round_of i e]"
      by (simp add: replicate_append_same)
    then show ?thesis by (simp only: concat_append concat.simps append_Nil2)
  qed
  then have r: "run cfg (concat (replicate (Suc n) (round_of i e))) s = run cfg (round_of i e) ?sn"
    by (simp only: run_append)
  from same_but_counter_trans [OF IH(1) st(1)] st(2) IH(2) show ?case
    unfolding r by simp
qed




















lemma replicate_eval: "replicate (numeral k) x = x # replicate (pred_numeral k) x"
  by (simp add: numeral_eq_Suc)

lemma word_count_long_page: "word_count (clean_text long_page) = 51"
  by (simp add: long_page_def replicate_eval clean_text_def strip_def allowed_def is_space_def word_count_def)

lemmas eval_start = start_def load_seen_titles_def Let_def strip_def is_space_def keeps_def
  invalid_patterns_def filter_insert_eval filter_empty_eval default_config_def file_text_def read_lines_def

lemmas eval_step = answers_def answers_after_def retry_loop.simps is_transient_def persist_def
  titles_text_def emit_def
  word_count_long_page

lemma steps_to_stop_le: "steps_to_stop w \<le> 5"
  by (cases w) simp_all

lemma steps_to_stop_0: "steps_to_stop w = 0 \<Longrightarrow> \<exists>r. w = Stopped r"
  by (cases w) simp_all

lemma worker_step_closer:
  assumes "worker_step cfg tid e g w = (g', w')"
    and "NUM_ARTICLES cfg \<le> total_articles_written g"
  shows "steps_to_stop w' \<le> steps_to_stop w - 1"
proof (cases w)
  case CheckStop
  with assms show ?thesis by (auto split: if_splits)
next
  case SampleBatch
  with assms show ?thesis by (auto split: prod.splits sample_result.splits)
next
  case (Dedup batch)
  with assms show ?thesis by (auto split: prod.splits if_splits)
next
  case (FetchLoop ts n)
  with assms show ?thesis by (cases ts) (auto split: if_splits)
next
  case (Fetching t ts n)
  with assms show ?thesis by (auto simp: Let_def split: fetch_outcome.splits if_splits)
next
  case (Counting t wc ts n)
  with assms show ?thesis by auto
next
  case (EndBatch n)
  with assms show ?thesis by (auto split: if_splits)
next
  case (Stopped r)
  with assms show ?thesis by auto
qed

lemma length_workers_step: "length (workers (process_step cfg a s)) = length (workers s)"
proof (cases a)
  case (WorkerAct i e)
  then show ?thesis by (auto split: prod.splits)
next
  case (MonitorAct ok)
  then show ?thesis by (auto split: prod.splits)
qed

lemma step_closer:
  assumes "NUM_ARTICLES cfg \<le> total_articles_written (globals s)" and "i < length (workers s)"
  shows "steps_to_stop (workers (process_step cfg a s) ! i)
           \<le> steps_to_stop (workers s ! i) - worker_steps i [a]"
proof (cases a)
  case (WorkerAct j e)
  show ?thesis
  proof (cases "j = i")
    case True
    obtain g' w' where st: "worker_step cfg i e (globals s) (workers s ! i) = (g', w')"
      by (cases "worker_step cfg i e (globals s) (workers s ! i)")
    from worker_step_closer [OF st assms(1)] st assms(2) WorkerAct True show ?thesis by simp
  next
    case False
    with WorkerAct assms(2) show ?thesis by (auto split: prod.splits)
  qed
next
  case (MonitorAct ok)
  then show ?thesis by (auto split: prod.splits)
qed

lemma worker_steps_Cons: "worker_steps i (a # acts) = worker_steps i [a] + worker_steps i acts"
  by (cases a) simp_all

lemma run_closer:
  "NUM_ARTICLES cfg \<le> total_articles_written (globals s) \<Longrightarrow> i < length (workers s) \<Longrightarrow>
   steps_to_stop (workers (run cfg acts s) ! i) \<le> steps_to_stop (workers s ! i) - worker_steps i acts"
proof (induction acts arbitrary: s)
  case Nil
  then show ?case by simp
next
  case (Cons a acts)
  let ?s1 = "process_step cfg a s"
  from Cons.prems(1) total_mono_step [of s cfg a]
  have t: "NUM_ARTICLES cfg \<le> total_articles_written (globals ?s1)" by linarith
  from Cons.prems(2) have l: "i < length (workers ?s1)" by (simp only: length_workers_step)
  from Cons.IH [OF t l]
  have "steps_to_stop (workers (run cfg acts ?s1) ! i)
          \<le> steps_to_stop (workers ?s1 ! i) - worker_steps i acts" .
  moreover from step_closer [OF Cons.prems]
  have "steps_to_stop (workers ?s1 ! i) \<le> steps_to_stop (workers s ! i) - worker_steps i [a]" .
  ultimately have "steps_to_stop (workers (run cfg acts ?s1) ! i)
      \<le> steps_to_stop (workers s ! i) - (worker_steps i [a] + worker_steps i acts)" by linarith
  then show ?case by (simp only: run.simps worker_steps_Cons [of i a acts])
qed

lemma worker_stops:
  assumes "NUM_ARTICLES cfg \<le> total_articles_written (globals s)" and "i < length (workers s)"
    and "5 \<le> worker_steps i acts"
  shows "\<exists>r. workers (run cfg acts s) ! i = Stopped r"
proof -
  from run_closer [OF assms(1,2), of acts] steps_to_stop_le [of "workers s ! i"] assms(3)
  have "steps_to_stop (workers (run cfg acts s) ! i) = 0" by linarith
  then show ?thesis by (rule steps_to_stop_0)
qed

lemma monitor_stops:
  "NUM_ARTICLES cfg \<le> total_articles_written (globals s) \<Longrightarrow> 1 \<le> monitor_steps acts \<or>
     (\<exists>r. monitor s = MonStopped r) \<Longrightarrow> \<exists>r. monitor (run cfg acts s) = MonStopped r"
proof (induction acts arbitrary: s)
  case Nil
  then show ?case by simp
next
  case (Cons a acts)
  let ?s1 = "process_step cfg a s"
  from Cons.prems(1) total_mono_step [of s cfg a]
  have t: "NUM_ARTICLES cfg \<le> total_articles_written (globals ?s1)" by linarith
  have "1 \<le> monitor_steps acts \<or> (\<exists>r. monitor ?s1 = MonStopped r)"
  proof (cases a)
    case (WorkerAct j e)
    with Cons.prems(2) show ?thesis by (auto split: prod.splits)
  next
    case (MonitorAct ok)
    with Cons.prems(1) have "\<exists>r. monitor ?s1 = MonStopped r"
      by (cases "monitor s") (auto split: prod.splits)
    then show ?thesis by blast
  qed
  from Cons.IH [OF t this] show ?case by simp
qed

lemma new_titles_of_none: "set batch \<subseteq> seen_titles g \<Longrightarrow> new_titles_of batch g = []"
proof -
  assume "set batch \<subseteq> seen_titles g"
  then have "set (new_titles_of batch g) = {}" by (simp add: new_titles_of_fresh)
  then show ?thesis by (simp only: set_empty)
qed

section \<open>The properties\<close>




text \<open>Claim C2, as amended. A step of a worker resets \<open>consecutive_empty_batches\<close> to 0
  exactly when it is the locked block of a batch with at least one new title, whether or
  not an article of the batch is written later. The locked block of a batch without new
  titles increments the counter; so does the end of a batch in which no article was
  written, while the end of a batch with a written article leaves it. No other step of
  a worker and no step of the monitor changes the counter.\<close>

theorem counter_reset_on_claim:
  assumes "i < length (workers s)"
  shows "(\<forall>batch. workers s ! i = Dedup batch \<longrightarrow>
            consecutive_empty_batches (globals (process_step cfg (WorkerAct i e) s)) =
              (if new_titles_of batch (globals s) = [] then consecutive_empty_batches (globals s) + 1
               else 0)) \<and>
         (\<forall>n. workers s ! i = EndBatch n \<longrightarrow>
            consecutive_empty_batches (globals (process_step cfg (WorkerAct i e) s)) =
              (if n = 0 then consecutive_empty_batches (globals s) + 1
               else consecutive_empty_batches (globals s))) \<and>
         ((\<forall>batch. workers s ! i \<noteq> Dedup batch) \<and> (\<forall>n. workers s ! i \<noteq> EndBatch n) \<longrightarrow>
            consecutive_empty_batches (globals (process_step cfg (WorkerAct i e) s)) =
              consecutive_empty_batches (globals s)) \<and>
         consecutive_empty_batches (globals (process_step cfg (MonitorAct ok) s)) =
           consecutive_empty_batches (globals s)"
proof -
  have w: "(\<forall>batch. workers s ! i = Dedup batch \<longrightarrow>
            consecutive_empty_batches (globals (process_step cfg (WorkerAct i e) s)) =
              (if new_titles_of batch (globals s) = [] then consecutive_empty_batches (globals s) + 1
               else 0)) \<and>
         (\<forall>n. workers s ! i = EndBatch n \<longrightarrow>
            consecutive_empty_batches (globals (process_step cfg (WorkerAct i e) s)) =
              (if n = 0 then consecutive_empty_batches (globals s) + 1
               else consecutive_empty_batches (globals s))) \<and>
         ((\<forall>batch. workers s ! i \<noteq> Dedup batch) \<and> (\<forall>n. workers s ! i \<noteq> EndBatch n) \<longrightarrow>
            consecutive_empty_batches (globals (process_step cfg (WorkerAct i e) s)) =
              consecutive_empty_batches (globals s))"
  proof (cases "workers s ! i")
    case CheckStop
    with assms show ?thesis by (auto split: if_splits)
  next
    case SampleBatch
    with assms show ?thesis by (auto split: prod.splits sample_result.splits)
  next
    case (Dedup batch)
    with assms show ?thesis by (auto simp: new_titles_of_def split: prod.splits if_splits)
  next
    case (FetchLoop ts n)
    with assms show ?thesis by (cases ts) (auto split: if_splits)
  next
    case (Fetching t ts n)
    with assms show ?thesis by (auto simp: Let_def split: fetch_outcome.splits if_splits)
  next
    case (Counting t wc ts n)
    with assms show ?thesis by auto
  next
    case (EndBatch n)
    with assms show ?thesis by (auto split: if_splits)
  next
    case (Stopped r)
    with assms show ?thesis by auto
  qed
  with monitor_keeps_counter [of cfg ok s] show ?thesis by blast
qed

text \<open>A concrete run for C2: at counter 2 the locked block of worker 0 claims a title and
  resets the counter, while a step of worker 1, at its stop check, leaves it; the page
  of the title has one word, and the end of the batch takes the counter from 0 to 1.\<close>

theorem counter_reset_on_claim_witness:
  "workers (run default_config reset_acts (start default_config None)) ! 0 = Dedup [[2309]] \<and>
   new_titles_of [[2309]] (globals (run default_config reset_acts (start default_config None))) \<noteq> [] \<and>
   consecutive_empty_batches (globals (run default_config reset_acts (start default_config None))) = 2 \<and>
   consecutive_empty_batches (globals (process_step default_config
      (WorkerAct 0 (answers (Titles [[2309]]) (PageContent [2309])))
      (run default_config reset_acts (start default_config None)))) = 0 \<and>
   consecutive_empty_batches (globals (process_step default_config
      (WorkerAct 1 (answers (Titles [[2309]]) (PageContent [2309])))
      (run default_config reset_acts (start default_config None)))) = 2 \<and>
   workers (run default_config
      (reset_acts @ replicate 4 (WorkerAct 0 (answers (Titles [[2309]]) (PageContent [2309]))))
      (start default_config None)) ! 0 = EndBatch 0 \<and>
   consecutive_empty_batches (globals (run default_config
      (reset_acts @ replicate 4 (WorkerAct 0 (answers (Titles [[2309]]) (PageContent [2309]))))
      (start default_config None))) = 0 \<and>
   consecutive_empty_batches (globals (process_step default_config
      (WorkerAct 0 (answers (Titles [[2309]]) (PageContent [2309])))
      (run default_config
         (reset_acts @ replicate 4 (WorkerAct 0 (answers (Titles [[2309]]) (PageContent [2309]))))
         (start default_config None)))) = 1"
proof -
  let ?s = "run default_config reset_acts (start default_config None)"
  let ?e = "answers (Titles [[2309]]) (PageContent [2309])"
  let ?s2 = "run default_config (reset_acts @ replicate 4 (WorkerAct 0 ?e)) (start default_config None)"
  have h: "0 < length (workers ?s)" "1 < length (workers ?s)"
    "workers ?s ! 0 = Dedup [[2309]]" "workers ?s ! 1 = CheckStop"
    "new_titles_of [[2309]] (globals ?s) \<noteq> []" "consecutive_empty_batches (globals ?s) = 2"
    by (simp_all add: reset_acts_def eval_start eval_step replicate_eval new_titles_of_def)
  have h2: "0 < length (workers ?s2)" "workers ?s2 ! 0 = EndBatch 0"
    "consecutive_empty_batches (globals ?s2) = 0"
    by (simp_all add: reset_acts_def eval_start eval_step replicate_eval clean_text_def allowed_def
          word_count_def)
  from counter_reset_on_claim [OF h(1), of default_config ?e True] h(3,5)
  have a: "consecutive_empty_batches (globals (process_step default_config (WorkerAct 0 ?e) ?s)) = 0"
    by simp
  from counter_reset_on_claim [OF h(2), of default_config ?e True] h(4,6)
  have b: "consecutive_empty_batches (globals (process_step default_config (WorkerAct 1 ?e) ?s)) = 2"
    by simp
  from counter_reset_on_claim [OF h2(1), of default_config ?e True] h2(2,3)
  have c: "consecutive_empty_batches (globals (process_step default_config (WorkerAct 0 ?e) ?s2)) = 1"
    by simp
  from a b c h h2 show ?thesis by blast
qed

text \<open>C2 as stated ties the reset to an accepted write. Here the counter stands at 2, worker
  0 claims a new title and the counter is reset; the page has one word, nothing is
  written, and the turn ends with the counter at 1.\<close>

theorem reset_without_write_counterexample:
  "consecutive_empty_batches (globals (run default_config reset_acts (start default_config None))) = 2 \<and>
   workers (run default_config reset_acts (start default_config None)) ! 0 = Dedup [[2309]] \<and>
   consecutive_empty_batches (globals (run default_config
      (reset_acts @ [WorkerAct 0 (answers (Titles [[2309]]) (PageContent [2309]))])
      (start default_config None))) = 0 \<and>
   workers (run default_config
      (reset_acts @ replicate 5 (WorkerAct 0 (answers (Titles [[2309]]) (PageContent [2309]))))
      (start default_config None)) ! 0 = CheckStop \<and>
   corpus (globals (run default_config
      (reset_acts @ replicate 5 (WorkerAct 0 (answers (Titles [[2309]]) (PageContent [2309]))))
      (start default_config None))) = [] \<and>
   consecutive_empty_batches (globals (run default_config
      (reset_acts @ replicate 5 (WorkerAct 0 (answers (Titles [[2309]]) (PageContent [2309]))))
      (start default_config None))) = 1"
  by (simp add: reset_acts_def eval_start eval_step replicate_eval clean_text_def allowed_def
        word_count_def del: Set.filter_eq)

text \<open>Claim C3. The sampling step of a worker makes at most \<open>MAX_RETRIES\<close> calls. After
  \<open>k\<close> transient failures, each followed by a sleep of \<open>RETRY_DELAY\<close> times the
  number of the attempt, it ends in one of three ways: the next call succeeds and the
  worker goes on with the batch; the next call fails with an error that is not transient
  and the worker goes on at once, with the empty batch; or all \<open>MAX_RETRIES\<close>
  attempts have failed, and the worker sleeps the cooldown and returns to the stop check.\<close>

theorem sampling_attempts_bounded:
  assumes "i < length (workers s)" and "workers s ! i = SampleBatch"
  shows "\<exists>k evs loc.
     k \<le> MAX_RETRIES cfg \<and>
     (\<forall>j. 1 \<le> j \<and> j \<le> k \<longrightarrow> transient_at (random_calls e) j) \<and>
     process_step cfg (WorkerAct i e) s =
       s\<lparr>globals := emit (Worker i) evs (globals s), workers := (workers s)[i := loc]\<rparr> \<and>
     length (filter (\<lambda>ev. ev = ApiRandom) evs) \<le> MAX_RETRIES cfg \<and>
     ((\<exists>b. k < MAX_RETRIES cfg \<and> random_calls e (k + 1) = Titles b \<and>
           evs = fails_from cfg 1 k @ [ApiRandom] \<and> loc = Dedup b) \<or>
      (\<exists>m. k < MAX_RETRIES cfg \<and> random_calls e (k + 1) = Raised m \<and> \<not> is_transient m \<and>
           evs = fails_from cfg 1 k @ [ApiRandom, LogCriticalError] \<and> loc = Dedup []) \<or>
      (k = MAX_RETRIES cfg \<and>
           evs = fails_from cfg 1 k @ [LogFailedAfterRetries, CooldownSleep 30] \<and> loc = CheckStop))"
proof -
  have "1 \<le> (1::nat)" "1 \<le> MAX_RETRIES cfg + 1" by simp_all
  from retry_loop_general [OF this, of "random_calls e"]
  obtain k where k: "k \<le> MAX_RETRIES cfg"
      "\<forall>j. 1 \<le> j \<and> j \<le> k \<longrightarrow> transient_at (random_calls e) j"
    and res: "(\<exists>b. k < MAX_RETRIES cfg \<and> random_calls e (k + 1) = Titles b \<and>
            retry_loop cfg (random_calls e) 1 = (Sampled b, fails_from cfg 1 k @ [ApiRandom])) \<or>
      (\<exists>m. k < MAX_RETRIES cfg \<and> random_calls e (k + 1) = Raised m \<and> \<not> is_transient m \<and>
            retry_loop cfg (random_calls e) 1 = (Aborted, fails_from cfg 1 k @ [ApiRandom, LogCriticalError])) \<or>
      (k = MAX_RETRIES cfg \<and>
       retry_loop cfg (random_calls e) 1 =
         (Exhausted, fails_from cfg 1 k @ [LogFailedAfterRetries, CooldownSleep 30]))"
    by blast
  from res consider
      (ok) b where "k < MAX_RETRIES cfg" "random_calls e (k + 1) = Titles b"
        "retry_loop cfg (random_calls e) 1 = (Sampled b, fails_from cfg 1 k @ [ApiRandom])"
    | (abort) m where "k < MAX_RETRIES cfg" "random_calls e (k + 1) = Raised m" "\<not> is_transient m"
        "retry_loop cfg (random_calls e) 1 = (Aborted, fails_from cfg 1 k @ [ApiRandom, LogCriticalError])"
    | (exhausted) "k = MAX_RETRIES cfg"
        "retry_loop cfg (random_calls e) 1 =
           (Exhausted, fails_from cfg 1 k @ [LogFailedAfterRetries, CooldownSleep 30])"
    by blast
  then show ?thesis
  proof cases
    case ok
    let ?evs = "fails_from cfg 1 k @ [ApiRandom]"
    from ok assms have "process_step cfg (WorkerAct i e) s =
        s\<lparr>globals := emit (Worker i) ?evs (globals s), workers := (workers s)[i := Dedup b]\<rparr>"
      by simp
    moreover from ok(1) have "length (filter (\<lambda>ev. ev = ApiRandom) ?evs) \<le> MAX_RETRIES cfg"
      by (simp add: count_api_fails1)
    ultimately show ?thesis using k ok(1,2)
      by (intro exI [of _ k] exI [of _ ?evs] exI [of _ "Dedup b"]) simp
  next
    case abort
    let ?evs = "fails_from cfg 1 k @ [ApiRandom, LogCriticalError]"
    from abort assms have "process_step cfg (WorkerAct i e) s =
        s\<lparr>globals := emit (Worker i) ?evs (globals s), workers := (workers s)[i := Dedup []]\<rparr>"
      by simp
    moreover from abort(1) have "length (filter (\<lambda>ev. ev = ApiRandom) ?evs) \<le> MAX_RETRIES cfg"
      by (simp add: count_api_fails1)
    ultimately show ?thesis using k abort(1,2,3)
      by (intro exI [of _ k] exI [of _ ?evs] exI [of _ "Dedup []"]) simp
  next
    case exhausted
    let ?evs = "fails_from cfg 1 k @ [LogFailedAfterRetries, CooldownSleep 30]"
    from exhausted assms have "process_step cfg (WorkerAct i e) s =
        s\<lparr>globals := emit (Worker i) ?evs (globals s), workers := (workers s)[i := CheckStop]\<rparr>"
      by simp
    moreover from exhausted(1) have "length (filter (\<lambda>ev. ev = ApiRandom) ?evs) \<le> MAX_RETRIES cfg"
      by (simp add: count_api_fails1)
    ultimately show ?thesis using k exhausted(1)
      by (intro exI [of _ k] exI [of _ ?evs] exI [of _ CheckStop]) simp
  qed
qed

text \<open>Concrete runs for C3 under the program's configuration: two transient failures and a
  success; four transient failures, the cooldown, and the return to the stop check.\<close>

theorem sampling_attempts_bounded_witness:
  "events (globals (run default_config
      (replicate 2 (WorkerAct 0 (answers_after 2 (Titles [[2309]]) PageError)))
      (start default_config None))) =
     map (Pair (Worker 0))
       [ApiRandom, LogApiError 1, RetrySleep 10, ApiRandom, LogApiError 2, RetrySleep 20, ApiRandom] \<and>
   workers (run default_config
      (replicate 2 (WorkerAct 0 (answers_after 2 (Titles [[2309]]) PageError)))
      (start default_config None)) ! 0 = Dedup [[2309]] \<and>
   events (globals (run default_config
      (replicate 2 (WorkerAct 0 (answers_after 4 (Titles [[2309]]) PageError)))
      (start default_config None))) =
     map (Pair (Worker 0))
       [ApiRandom, LogApiError 1, RetrySleep 10, ApiRandom, LogApiError 2, RetrySleep 20,
        ApiRandom, LogApiError 3, RetrySleep 30, ApiRandom, LogApiError 4, RetrySleep 40,
        LogFailedAfterRetries, CooldownSleep 30] \<and>
   workers (run default_config
      (replicate 2 (WorkerAct 0 (answers_after 4 (Titles [[2309]]) PageError)))
      (start default_config None)) ! 0 = CheckStop"
  using sampling_attempts_bounded [of 0
      "process_step default_config (WorkerAct 0 (answers_after 2 (Titles [[2309]]) PageError))
         (start default_config None)"
      default_config "answers_after 2 (Titles [[2309]]) PageError"]
  by (simp add: eval_start eval_step replicate_eval)

text \<open>Claim C4, as amended. In every run the counter, and the initial count plus the number
  of lines written, stay at most \<open>NUM_ARTICLES + NUM_WORKER_THREADS - 1\<close> (or the
  initial count, if that is larger). Once the counter has reached the target it stays
  there, and however the run goes on, each of the \<open>NUM_WORKER_THREADS\<close> workers has
  returned after five steps of its own at the latest, and the monitor after its next
  check. A worker at its stop check returns at once; a worker at the head of its loop
  over the new titles leaves the loop instead of fetching; and only a worker that had
  passed the target check before can still write.\<close>

theorem target_reached_stops:
  "let s = run cfg acts (start cfg f);
       total0 = snd (load_seen_titles (map_option read_lines f));
       bound = max total0 (NUM_ARTICLES cfg + NUM_WORKER_THREADS cfg - 1)
   in length (workers s) = NUM_WORKER_THREADS cfg \<and>
      total_articles_written (globals s) \<le> bound \<and>
      total0 + length (corpus (globals s)) \<le> bound \<and>
      (NUM_ARTICLES cfg \<le> total_articles_written (globals s) \<longrightarrow>
         (\<forall>acts'. NUM_ARTICLES cfg \<le> total_articles_written (globals (run cfg acts' s))) \<and>
         (\<forall>acts' i. i < length (workers s) \<and> 5 \<le> worker_steps i acts' \<longrightarrow>
            (\<exists>r. workers (run cfg acts' s) ! i = Stopped r)) \<and>
         (\<forall>acts'. 1 \<le> monitor_steps acts' \<longrightarrow> (\<exists>r. monitor (run cfg acts' s) = MonStopped r)) \<and>
         (\<forall>ok c. monitor s = MonRunning c \<longrightarrow>
            monitor (process_step cfg (MonitorAct ok) s) = MonStopped TargetReached) \<and>
         (\<forall>i e. i < length (workers s) \<longrightarrow>
            (workers s ! i = CheckStop \<longrightarrow>
               workers (process_step cfg (WorkerAct i e) s) ! i = Stopped TargetReached) \<and>
            (\<forall>ts n. workers s ! i = FetchLoop ts n \<longrightarrow>
               workers (process_step cfg (WorkerAct i e) s) ! i = EndBatch n) \<and>
            (corpus (globals (process_step cfg (WorkerAct i e) s)) \<noteq> corpus (globals s) \<longrightarrow>
               (\<exists>t ts n. workers s ! i = Fetching t ts n))))"
proof -
  let ?s = "run cfg acts (start cfg f)"
  let ?t0 = "snd (load_seen_titles (map_option read_lines f))"
  let ?B = "max ?t0 (NUM_ARTICLES cfg + NUM_WORKER_THREADS cfg - 1)"
  have "count_inv cfg ?t0 ?s" by (intro count_inv_run count_inv_start)
  then have b: "total_articles_written (globals ?s) + sum_list (map in_flight (workers ?s)) \<le> ?B"
    and a: "?t0 + length (corpus (globals ?s)) =
            total_articles_written (globals ?s) + sum_list (map uncounted (workers ?s))"
    by (simp_all add: count_inv_def Let_def)
  from b have c1: "total_articles_written (globals ?s) \<le> ?B" by linarith
  from a b sum_uncounted_le [of "workers ?s"] have c2: "?t0 + length (corpus (globals ?s)) \<le> ?B"
    by linarith
  have c3: "NUM_ARTICLES cfg \<le> total_articles_written (globals (run cfg acts' ?s))"
    if "NUM_ARTICLES cfg \<le> total_articles_written (globals ?s)" for acts'
    using that total_mono_run [of ?s cfg acts'] by linarith
  have c4: "monitor (process_step cfg (MonitorAct ok) ?s) = MonStopped TargetReached"
    if "NUM_ARTICLES cfg \<le> total_articles_written (globals ?s)" "monitor ?s = MonRunning c" for ok c
    using that by simp
  have c5: "workers (process_step cfg (WorkerAct i e) ?s) ! i = Stopped TargetReached"
    if "NUM_ARTICLES cfg \<le> total_articles_written (globals ?s)" "i < length (workers ?s)"
       "workers ?s ! i = CheckStop" for i e
    using that by simp
  have c6: "workers (process_step cfg (WorkerAct i e) ?s) ! i = EndBatch n"
    if "NUM_ARTICLES cfg \<le> total_articles_written (globals ?s)" "i < length (workers ?s)"
       "workers ?s ! i = FetchLoop ts n" for i e ts n
    using that by (cases ts) simp_all
  have c7: "\<exists>t ts n. workers ?s ! i = Fetching t ts n"
    if "i < length (workers ?s)"
       "corpus (globals (process_step cfg (WorkerAct i e) ?s)) \<noteq> corpus (globals ?s)" for i e
  proof -
    obtain g' w' where st: "worker_step cfg i e (globals ?s) (workers ?s ! i) = (g', w')"
      by (cases "worker_step cfg i e (globals ?s) (workers ?s ! i)")
    with that have ne: "corpus g' \<noteq> corpus (globals ?s)" by simp
    show ?thesis
    proof (cases "workers ?s ! i")
      case (Fetching t ts n)
      then show ?thesis by blast
    next
      case CheckStop
      with st ne show ?thesis by (auto split: if_splits)
    next
      case SampleBatch
      with st ne show ?thesis by (auto split: prod.splits sample_result.splits)
    next
      case (Dedup batch)
      with st ne show ?thesis by (auto split: prod.splits if_splits)
    next
      case (FetchLoop ts n)
      with st ne show ?thesis by (cases ts) (auto split: if_splits)
    next
      case (Counting t wc ts n)
      with st ne show ?thesis by auto
    next
      case (EndBatch n)
      with st ne show ?thesis by (auto split: if_splits)
    next
      case (Stopped r)
      with st ne show ?thesis by auto
    qed
  qed
  from \<open>count_inv cfg ?t0 ?s\<close> have c0: "length (workers ?s) = NUM_WORKER_THREADS cfg"
    by (simp add: count_inv_def Let_def)
  have c8: "\<exists>r. workers (run cfg acts' ?s) ! i = Stopped r"
    if "NUM_ARTICLES cfg \<le> total_articles_written (globals ?s)" "i < length (workers ?s)"
       "5 \<le> worker_steps i acts'" for acts' i
    using that by (rule worker_stops)
  have c9: "\<exists>r. monitor (run cfg acts' ?s) = MonStopped r"
    if "NUM_ARTICLES cfg \<le> total_articles_written (globals ?s)" "1 \<le> monitor_steps acts'" for acts'
    using that by (intro monitor_stops) simp_all
  from c0 c1 c2 c3 c4 c5 c6 c7 c8 c9 show ?thesis unfolding Let_def by blast
qed

text \<open>A concrete run for C4, with target 1: when the target is reached worker 1 is about to
  fetch, and has returned after five steps; the monitor returns, worker 0 leaves its
  loop, and worker 2 returns at its stop check.\<close>

theorem target_reached_stops_witness:
  "NUM_ARTICLES (default_config\<lparr>NUM_ARTICLES := 1\<rparr>) \<le>
     total_articles_written (globals (run (default_config\<lparr>NUM_ARTICLES := 1\<rparr>) race_acts
        (start (default_config\<lparr>NUM_ARTICLES := 1\<rparr>) None))) \<and>
   1 < length (workers (run (default_config\<lparr>NUM_ARTICLES := 1\<rparr>) race_acts
        (start (default_config\<lparr>NUM_ARTICLES := 1\<rparr>) None))) \<and>
   workers (run (default_config\<lparr>NUM_ARTICLES := 1\<rparr>) race_acts
        (start (default_config\<lparr>NUM_ARTICLES := 1\<rparr>) None)) ! 1 = Fetching [2310] [] 0 \<and>
   5 \<le> worker_steps 1
        (replicate 5 (WorkerAct 1 (answers (Titles [[2310]]) (PageContent long_page)))) \<and>
   (\<exists>r. workers (run (default_config\<lparr>NUM_ARTICLES := 1\<rparr>)
        (replicate 5 (WorkerAct 1 (answers (Titles [[2310]]) (PageContent long_page))))
        (run (default_config\<lparr>NUM_ARTICLES := 1\<rparr>) race_acts
           (start (default_config\<lparr>NUM_ARTICLES := 1\<rparr>) None))) ! 1 = Stopped r) \<and>
   workers (run (default_config\<lparr>NUM_ARTICLES := 1\<rparr>)
        (replicate 5 (WorkerAct 1 (answers (Titles [[2310]]) (PageContent long_page))))
        (run (default_config\<lparr>NUM_ARTICLES := 1\<rparr>) race_acts
           (start (default_config\<lparr>NUM_ARTICLES := 1\<rparr>) None))) ! 1 = Stopped TargetReached \<and>
   monitor (process_step (default_config\<lparr>NUM_ARTICLES := 1\<rparr>) (MonitorAct True)
      (run (default_config\<lparr>NUM_ARTICLES := 1\<rparr>) race_acts
         (start (default_config\<lparr>NUM_ARTICLES := 1\<rparr>) None))) = MonStopped TargetReached \<and>
   workers (process_step (default_config\<lparr>NUM_ARTICLES := 1\<rparr>)
      (WorkerAct 0 (answers (Titles []) PageError))
      (run (default_config\<lparr>NUM_ARTICLES := 1\<rparr>) race_acts
         (start (default_config\<lparr>NUM_ARTICLES := 1\<rparr>) None))) ! 0 = EndBatch 1 \<and>
   workers (process_step (default_config\<lparr>NUM_ARTICLES := 1\<rparr>)
      (WorkerAct 2 (answers (Titles []) PageError))
      (run (default_config\<lparr>NUM_ARTICLES := 1\<rparr>) race_acts
         (start (default_config\<lparr>NUM_ARTICLES := 1\<rparr>) None))) ! 2 = Stopped TargetReached"
proof -
  let ?cfg = "default_config\<lparr>NUM_ARTICLES := 1\<rparr>"
  let ?s = "run ?cfg race_acts (start ?cfg None)"
  let ?five = "replicate 5 (WorkerAct 1 (answers (Titles [[2310]]) (PageContent long_page)))"
  have h: "NUM_ARTICLES ?cfg \<le> total_articles_written (globals ?s)" "1 < length (workers ?s)"
    "workers ?s ! 1 = Fetching [2310] [] 0" "5 \<le> worker_steps 1 ?five"
    by (simp_all add: race_acts_def eval_start eval_step replicate_eval del: Set.filter_eq)
  have v: "workers (run ?cfg ?five ?s) ! 1 = Stopped TargetReached"
    "monitor (process_step ?cfg (MonitorAct True) ?s) = MonStopped TargetReached"
    "workers (process_step ?cfg (WorkerAct 0 (answers (Titles []) PageError)) ?s) ! 0 = EndBatch 1"
    "workers (process_step ?cfg (WorkerAct 2 (answers (Titles []) PageError)) ?s) ! 2 =
       Stopped TargetReached"
    by (simp_all add: race_acts_def eval_start eval_step replicate_eval del: Set.filter_eq)
  from target_reached_stops [of ?cfg race_acts None] h(1)
  have "\<forall>acts' i. i < length (workers ?s) \<and> 5 \<le> worker_steps i acts' \<longrightarrow>
          (\<exists>r. workers (run ?cfg acts' ?s) ! i = Stopped r)"
    unfolding Let_def by blast
  with h(2,4) have "\<exists>r. workers (run ?cfg ?five ?s) ! 1 = Stopped r" by blast
  with h v show ?thesis by blast
qed

text \<open>C4 as stated allows no write after the target is reached. With target 1, workers 0 and
  1 both pass the target check while the counter is 0; worker 0 writes and counts its
  article, which reaches the target; the next step of worker 1 writes a second article.\<close>

theorem write_after_target_counterexample:
  "NUM_ARTICLES (default_config\<lparr>NUM_ARTICLES := 1\<rparr>) \<le>
     total_articles_written (globals (run (default_config\<lparr>NUM_ARTICLES := 1\<rparr>) race_acts
        (start (default_config\<lparr>NUM_ARTICLES := 1\<rparr>) None))) \<and>
   map fst (corpus (globals (run (default_config\<lparr>NUM_ARTICLES := 1\<rparr>) race_acts
        (start (default_config\<lparr>NUM_ARTICLES := 1\<rparr>) None)))) = [[2309]] \<and>
   map fst (corpus (globals (process_step (default_config\<lparr>NUM_ARTICLES := 1\<rparr>)
        (WorkerAct 1 (answers (Titles [[2310]]) (PageContent long_page)))
        (run (default_config\<lparr>NUM_ARTICLES := 1\<rparr>) race_acts
           (start (default_config\<lparr>NUM_ARTICLES := 1\<rparr>) None))))) = [[2309], [2310]]"
  by (simp add: race_acts_def eval_start eval_step replicate_eval del: Set.filter_eq)

text \<open>Claim C5. When the cleaned text of a fetched page has at most 50 words, the step
  writes nothing to the corpus, leaves \<open>total_articles_written\<close> as it is, and takes
  the worker to the next title of its batch, not to the increment.\<close>

theorem short_article_not_written:
  assumes "i < length (workers s)" and "workers s ! i = Fetching t ts n"
    and "page_fetch e = PageContent raw" and "word_count (clean_text raw) \<le> 50"
  shows "corpus (globals (process_step cfg (WorkerAct i e) s)) = corpus (globals s) \<and>
         total_articles_written (globals (process_step cfg (WorkerAct i e) s)) =
           total_articles_written (globals s) \<and>
         workers (process_step cfg (WorkerAct i e) s) ! i = FetchLoop ts n"
  using assms by (simp add: Let_def)

text \<open>A concrete run for C5: a page of two words.\<close>

theorem short_article_not_written_witness:
  "corpus (globals (run default_config
      (replicate 5 (WorkerAct 0 (answers (Titles [[2309]]) (PageContent [2309, 32, 2310]))))
      (start default_config None))) = [] \<and>
   total_articles_written (globals (run default_config
      (replicate 5 (WorkerAct 0 (answers (Titles [[2309]]) (PageContent [2309, 32, 2310]))))
      (start default_config None))) = 0 \<and>
   workers (run default_config
      (replicate 5 (WorkerAct 0 (answers (Titles [[2309]]) (PageContent [2309, 32, 2310]))))
      (start default_config None)) ! 0 = FetchLoop [] 0"
proof -
  let ?e = "answers (Titles [[2309]]) (PageContent [2309, 32, 2310])"
  let ?s = "run default_config (replicate 4 (WorkerAct 0 ?e)) (start default_config None)"
  have r: "run default_config (replicate 5 (WorkerAct 0 ?e)) (start default_config None) =
           process_step default_config (WorkerAct 0 ?e) ?s"
    by (simp add: replicate_eval run_append [symmetric] replicate_append_same)
  have s: "0 < length (workers ?s)" "workers ?s ! 0 = Fetching [2309] [] 0"
    "corpus (globals ?s) = []" "total_articles_written (globals ?s) = 0"
    by (simp_all add: eval_start eval_step replicate_eval)
  have p: "page_fetch ?e = PageContent [2309, 32, 2310]" by (simp add: answers_def)
  have w: "word_count (clean_text [2309, 32, 2310]) \<le> 50"
    by (simp add: clean_text_def strip_def allowed_def is_space_def word_count_def)
  from short_article_not_written [OF s(1) s(2) p w, of default_config] s(3,4) r
  show ?thesis by simp
qed



text \<open>Claim C7. When the append of the new titles to the seen file fails, the failure is
  printed and the worker goes on to fetch the new titles: its location and the set
  \<open>seen_titles\<close> are what they are after a successful append. The titles of the
  batch stay in \<open>seen_titles\<close> in every later state of the run, and no later batch
  claims one of them again.\<close>

theorem seen_file_failure_not_fatal:
  assumes "i < length (workers s)" and "workers s ! i = Dedup batch"
    and "new_titles_of batch (globals s) \<noteq> []" and "seen_append e = IoFails k"
  shows "events (globals (process_step cfg (WorkerAct i e) s)) =
           events (globals s) @ [(Worker i, LogSeenFileError)] \<and>
         workers (process_step cfg (WorkerAct i e) s) ! i =
           FetchLoop (new_titles_of batch (globals s)) 0 \<and>
         workers (process_step cfg (WorkerAct i e) s) =
           workers (process_step cfg (WorkerAct i (e\<lparr>seen_append := IoOk\<rparr>)) s) \<and>
         seen_titles (globals (process_step cfg (WorkerAct i e) s)) =
           seen_titles (globals (process_step cfg (WorkerAct i (e\<lparr>seen_append := IoOk\<rparr>)) s)) \<and>
         (\<forall>acts. set batch \<subseteq> seen_titles (globals (run cfg acts (process_step cfg (WorkerAct i e) s))) \<and>
            (\<forall>batch2. set (new_titles_of batch2 (globals (run cfg acts (process_step cfg (WorkerAct i e) s))))
                        \<inter> set batch = {}))"
proof -
  let ?s1 = "process_step cfg (WorkerAct i e) s"
  obtain seen new where d: "dedup_loop batch (seen_titles (globals s)) [] = (seen, new)"
    by (cases "dedup_loop batch (seen_titles (globals s)) []")
  with assms(3) have new: "new = new_titles_of batch (globals s)" "new \<noteq> []"
    by (simp_all add: new_titles_of_def)
  from dedup_loop_seen [of batch "seen_titles (globals s)" "[]"] d
  have seen: "seen = seen_titles (globals s) \<union> set batch" by simp
  from assms d new have ev: "events (globals ?s1) = events (globals s) @ [(Worker i, LogSeenFileError)]"
    and w: "workers ?s1 ! i = FetchLoop (new_titles_of batch (globals s)) 0"
    and ws: "workers ?s1 = workers (process_step cfg (WorkerAct i (e\<lparr>seen_append := IoOk\<rparr>)) s)"
    and st: "seen_titles (globals ?s1) = seen"
    and st2: "seen_titles (globals (process_step cfg (WorkerAct i (e\<lparr>seen_append := IoOk\<rparr>)) s)) = seen"
    by (simp_all add: persist_def)
  have later: "set batch \<subseteq> seen_titles (globals (run cfg acts ?s1)) \<and>
            (\<forall>batch2. set (new_titles_of batch2 (globals (run cfg acts ?s1))) \<inter> set batch = {})" for acts
  proof -
    have "seen_titles (globals ?s1) \<subseteq> seen_titles (globals (run cfg acts ?s1))"
      by (rule seen_mono_run)
    with st seen have "set batch \<subseteq> seen_titles (globals (run cfg acts ?s1))" by auto
    then show ?thesis by (auto simp: new_titles_of_fresh)
  qed
  from ev w ws st st2 later show ?thesis by simp
qed

text \<open>A concrete run for C7: the append fails before any line is written; the title is in
  the set and is not new for a second batch that names it.\<close>

theorem seen_file_failure_not_fatal_witness:
  "events (globals (run default_config
      (replicate 3 (WorkerAct 0 ((answers (Titles [[2309]]) PageError)\<lparr>seen_append := IoFails 0\<rparr>)))
      (start default_config None))) =
     [(Worker 0, ApiRandom), (Worker 0, LogSeenFileError)] \<and>
   seen_file (globals (run default_config
      (replicate 3 (WorkerAct 0 ((answers (Titles [[2309]]) PageError)\<lparr>seen_append := IoFails 0\<rparr>)))
      (start default_config None))) = [] \<and>
   workers (run default_config
      (replicate 3 (WorkerAct 0 ((answers (Titles [[2309]]) PageError)\<lparr>seen_append := IoFails 0\<rparr>)))
      (start default_config None)) ! 0 = FetchLoop [[2309]] 0 \<and>
   new_titles_of [[2309]] (globals (run default_config
      (replicate 3 (WorkerAct 0 ((answers (Titles [[2309]]) PageError)\<lparr>seen_append := IoFails 0\<rparr>)))
      (start default_config None))) = []"
proof -
  let ?e = "(answers (Titles [[2309]]) PageError)\<lparr>seen_append := IoFails 0\<rparr>"
  let ?s = "run default_config (replicate 2 (WorkerAct 0 ?e)) (start default_config None)"
  have r: "run default_config (replicate 3 (WorkerAct 0 ?e)) (start default_config None) =
           process_step default_config (WorkerAct 0 ?e) ?s"
    by (simp add: replicate_eval run_append [symmetric] replicate_append_same)
  have h: "0 < length (workers ?s)" "workers ?s ! 0 = Dedup [[2309]]"
    "new_titles_of [[2309]] (globals ?s) \<noteq> []" "seen_append ?e = IoFails 0"
    by (simp_all add: eval_start eval_step replicate_eval new_titles_of_def)
  have n: "new_titles_of [[2309]] (globals ?s) = [[2309]]" "events (globals ?s) = [(Worker 0, ApiRandom)]"
    by (simp_all add: eval_start eval_step replicate_eval new_titles_of_def)
  have f: "seen_file (globals (process_step default_config (WorkerAct 0 ?e) ?s)) = []"
    by (simp add: eval_start eval_step replicate_eval)
  note t = seen_file_failure_not_fatal [OF h, of default_config]
  from t have a: "events (globals (process_step default_config (WorkerAct 0 ?e) ?s)) =
      events (globals ?s) @ [(Worker 0, LogSeenFileError)]" by (rule conjunct1)
  from t have b: "workers (process_step default_config (WorkerAct 0 ?e) ?s) ! 0 =
      FetchLoop (new_titles_of [[2309]] (globals ?s)) 0" by (rule conjunct1 [OF conjunct2])
  from t have l: "\<forall>acts. set [[2309]] \<subseteq> seen_titles (globals (run default_config acts
        (process_step default_config (WorkerAct 0 ?e) ?s))) \<and>
      (\<forall>batch2. set (new_titles_of batch2 (globals (run default_config acts
        (process_step default_config (WorkerAct 0 ?e) ?s)))) \<inter> set [[2309]] = {})"
    by (rule conjunct2 [OF conjunct2 [OF conjunct2 [OF conjunct2]]])
  have "set [[2309]] \<subseteq> seen_titles (globals (run default_config []
        (process_step default_config (WorkerAct 0 ?e) ?s)))"
    by (rule conjunct1 [OF spec [OF l]])
  then have "set [[2309]] \<subseteq> seen_titles (globals (process_step default_config (WorkerAct 0 ?e) ?s))"
    by (simp only: run.simps)
  then have c: "new_titles_of [[2309]] (globals (process_step default_config (WorkerAct 0 ?e) ?s)) = []"
    by (rule new_titles_of_none)
  from a b c f show ?thesis unfolding r n by simp
qed

text \<open>Claim C8. Cleaning is idempotent.\<close>

theorem clean_text_idempotent: "clean_text (clean_text x) = clean_text x"
  by (rule clean_text_fixed) (auto simp: clean_text_allowed clean_text_spaced clean_text_trimmed)

text \<open>C8 on the example text: Hello, two Marathi words, the digits 123 and a full stop.\<close>

theorem clean_text_idempotent_witness:
  "clean_text (clean_text [72, 101, 108, 108, 111, 32, 2350, 2352, 2366, 2336, 2368, 32, 32, 49, 50,
      51, 32, 2357, 2366, 2325, 2381, 2351, 46]) =
   [2350, 2352, 2366, 2336, 2368, 32, 2357, 2366, 2325, 2381, 2351]"
proof -
  have "clean_text [72, 101, 108, 108, 111, 32, 2350, 2352, 2366, 2336, 2368, 32, 32, 49, 50,
      51, 32, 2357, 2366, 2325, 2381, 2351, 46] =
    [2350, 2352, 2366, 2336, 2368, 32, 2357, 2366, 2325, 2381, 2351]"
    by (simp add: clean_text_def strip_def allowed_def is_space_def)
  with clean_text_idempotent [of "[72, 101, 108, 108, 111, 32, 2350, 2352, 2366, 2336, 2368, 32, 32,
      49, 50, 51, 32, 2357, 2366, 2325, 2381, 2351, 46]"]
  show ?thesis by simp
qed

text \<open>Claim C9, as amended. A text of allowed characters whose whitespace characters are
  single spaces U+0020, and which neither begins nor ends with one, is left unchanged by
  cleaning.\<close>

theorem clean_text_fixed_point:
  assumes "list_all allowed x" and "spaced x" and "trimmed x"
  shows "clean_text x = x"
  using assms by (intro clean_text_fixed) (simp_all add: list_all_iff)

text \<open>C9 on two Marathi words separated by one space.\<close>

theorem clean_text_fixed_point_witness:
  "list_all allowed [2350, 2352, 2366, 2336, 2368, 32, 2357, 2366, 2325, 2381, 2351] \<and>
   spaced [2350, 2352, 2366, 2336, 2368, 32, 2357, 2366, 2325, 2381, 2351] \<and>
   trimmed [2350, 2352, 2366, 2336, 2368, 32, 2357, 2366, 2325, 2381, 2351] \<and>
   clean_text [2350, 2352, 2366, 2336, 2368, 32, 2357, 2366, 2325, 2381, 2351] =
     [2350, 2352, 2366, 2336, 2368, 32, 2357, 2366, 2325, 2381, 2351]"
proof -
  have h: "list_all allowed [2350, 2352, 2366, 2336, 2368, 32, 2357, 2366, 2325, 2381, 2351]"
    "spaced [2350, 2352, 2366, 2336, 2368, 32, 2357, 2366, 2325, 2381, 2351]"
    "trimmed [2350, 2352, 2366, 2336, 2368, 32, 2357, 2366, 2325, 2381, 2351]"
    by (simp_all add: allowed_def is_space_def trimmed_def)
  from clean_text_fixed_point [OF h] h show ?thesis by blast
qed

text \<open>C9 as stated asks only for allowed characters and single spaces. A letter followed by
  one space meets that and loses the space; and a newline is an allowed character, which
  cleaning turns into a space.\<close>

theorem clean_text_outer_space_counterexample:
  "list_all allowed [2309, 32] \<and> spaced [2309, 32] \<and> clean_text [2309, 32] \<noteq> [2309, 32] \<and>
   list_all allowed [2309, 10, 2310] \<and> clean_text [2309, 10, 2310] \<noteq> [2309, 10, 2310]"
  by (simp add: clean_text_def strip_def allowed_def is_space_def)

text \<open>Claim C10. A worker whose sampling fails with an error that is not transient goes on
  with the empty batch, without a cooldown sleep, and its locked block increments
  \<open>consecutive_empty_batches\<close>. Repeated, such turns alone bring the counter to the
  threshold, where the worker returns with the reason that no new articles were found;
  nothing is written on the way.\<close>

theorem permanent_errors_stop_worker:
  assumes "i < length (workers s)" and "workers s ! i = CheckStop"
    and "total_articles_written (globals s) < NUM_ARTICLES cfg"
    and "consecutive_empty_batches (globals s) < CONSECUTIVE_EMPTY_THRESHOLD cfg"
    and "permanent_error cfg e"
  shows "workers (run cfg [WorkerAct i e, WorkerAct i e] s) ! i = Dedup [] \<and>
         cooldowns (events (globals (run cfg (round_of i e) s))) = cooldowns (events (globals s)) \<and>
         consecutive_empty_batches (globals (run cfg (round_of i e) s)) =
           consecutive_empty_batches (globals s) + 1 \<and>
         workers (run cfg
            (concat (replicate (CONSECUTIVE_EMPTY_THRESHOLD cfg - consecutive_empty_batches (globals s))
               (round_of i e)) @ [WorkerAct i e]) s) ! i = Stopped NoNewArticles \<and>
         corpus (globals (run cfg
            (concat (replicate (CONSECUTIVE_EMPTY_THRESHOLD cfg - consecutive_empty_batches (globals s))
               (round_of i e)) @ [WorkerAct i e]) s)) = corpus (globals s) \<and>
         cooldowns (events (globals (run cfg
            (concat (replicate (CONSECUTIVE_EMPTY_THRESHOLD cfg - consecutive_empty_batches (globals s))
               (round_of i e)) @ [WorkerAct i e]) s))) = cooldowns (events (globals s))"
proof -
  let ?n = "CONSECUTIVE_EMPTY_THRESHOLD cfg - consecutive_empty_batches (globals s)"
  let ?sn = "run cfg (concat (replicate ?n (round_of i e))) s"
  from permanent_error_aborts [OF assms(5), of "Worker i"] obtain evs
    where r: "retry_loop cfg (random_calls e) 1 = (Aborted, evs)" by blast
  with assms(1-4) have a: "workers (run cfg [WorkerAct i e, WorkerAct i e] s) ! i = Dedup []"
    by simp
  from permanent_round [OF assms]
  have b: "cooldowns (events (globals (run cfg (round_of i e) s))) = cooldowns (events (globals s))"
    and c: "consecutive_empty_batches (globals (run cfg (round_of i e) s)) =
              consecutive_empty_batches (globals s) + 1"
    by (simp_all add: same_but_counter_def)
  from assms(4) have "consecutive_empty_batches (globals s) + ?n \<le> CONSECUTIVE_EMPTY_THRESHOLD cfg"
    by simp
  from permanent_rounds [OF assms(1,2,3,5) this]
  have same: "same_but_counter s ?sn"
    and cnt: "consecutive_empty_batches (globals ?sn) = consecutive_empty_batches (globals s) + ?n"
    by simp_all
  from cnt assms(4) have thr: "CONSECUTIVE_EMPTY_THRESHOLD cfg \<le> consecutive_empty_batches (globals ?sn)"
    by simp
  from same assms(1,2,3) have i': "i < length (workers ?sn)" and w': "workers ?sn ! i = CheckStop"
    and t': "total_articles_written (globals ?sn) < NUM_ARTICLES cfg"
    and co: "corpus (globals ?sn) = corpus (globals s)"
    and cd: "cooldowns (events (globals ?sn)) = cooldowns (events (globals s))"
    by (simp_all add: same_but_counter_def)
  let ?sf = "process_step cfg (WorkerAct i e) ?sn"
  from i' w' t' thr have d: "workers ?sf ! i = Stopped NoNewArticles"
    and e: "corpus (globals ?sf) = corpus (globals ?sn)"
    and f: "cooldowns (events (globals ?sf)) = cooldowns (events (globals ?sn))"
    by (simp_all add: cooldowns_append) (simp add: cooldowns_def)
  have run: "run cfg (concat (replicate ?n (round_of i e)) @ [WorkerAct i e]) s = ?sf"
    by (simp add: run_append)
  from a b c d e f co cd show ?thesis unfolding run by simp
qed

text \<open>C10 under the program's configuration: a hundred turns of worker 0 against a source
  that always fails with the message Bad.\<close>

theorem permanent_errors_stop_worker_witness:
  "workers (run default_config
      (concat (replicate 100 (round_of 0 (answers (Raised [66, 97, 100]) PageError))) @
       [WorkerAct 0 (answers (Raised [66, 97, 100]) PageError)])
      (start default_config None)) ! 0 = Stopped NoNewArticles \<and>
   cooldowns (events (globals (run default_config
      (concat (replicate 100 (round_of 0 (answers (Raised [66, 97, 100]) PageError))) @
       [WorkerAct 0 (answers (Raised [66, 97, 100]) PageError)])
      (start default_config None)))) = [] \<and>
   consecutive_empty_batches (globals (run default_config
      (round_of 0 (answers (Raised [66, 97, 100]) PageError)) (start default_config None))) = 1"
proof -
  let ?e = "answers (Raised [66, 97, 100]) PageError"
  let ?s = "start default_config None"
  have h: "0 < length (workers ?s)" "workers ?s ! 0 = CheckStop"
    "total_articles_written (globals ?s) < NUM_ARTICLES default_config"
    "consecutive_empty_batches (globals ?s) < CONSECUTIVE_EMPTY_THRESHOLD default_config"
    by (simp_all add: eval_start replicate_eval)
  have "0 < MAX_RETRIES default_config \<and>
        (\<forall>j. 1 \<le> j \<and> j \<le> 0 \<longrightarrow> transient_at (random_calls ?e) j) \<and>
        (case random_calls ?e (0 + 1) of Titles b \<Rightarrow> False | Raised m \<Rightarrow> \<not> is_transient m)"
    by (simp add: default_config_def answers_def is_transient_def)
  then have p: "permanent_error default_config ?e"
    unfolding permanent_error_def by blast
  have v: "consecutive_empty_batches (globals ?s) = 0" "events (globals ?s) = []"
    "CONSECUTIVE_EMPTY_THRESHOLD default_config - 0 = 100"
    by (simp_all add: eval_start)
  note t = permanent_errors_stop_worker [OF h p, unfolded v]
  have n: "cooldowns [] = []" by (simp add: cooldowns_def)
  from t have "workers (run default_config
      (concat (replicate 100 (round_of 0 ?e)) @ [WorkerAct 0 ?e]) ?s) ! 0 = Stopped NoNewArticles"
    by (rule conjunct1 [OF conjunct2 [OF conjunct2 [OF conjunct2]]])
  moreover from t have "cooldowns (events (globals (run default_config
      (concat (replicate 100 (round_of 0 ?e)) @ [WorkerAct 0 ?e]) ?s))) = cooldowns []"
    by (rule conjunct2 [OF conjunct2 [OF conjunct2 [OF conjunct2 [OF conjunct2]]]])
  moreover from t have "consecutive_empty_batches (globals (run default_config (round_of 0 ?e) ?s)) = 0 + 1"
    by (rule conjunct1 [OF conjunct2 [OF conjunct2]])
  ultimately show ?thesis by (simp only: n) simp
qed

end
